theory Spec2Isabelle
  imports Main
begin

section \<open>Callback delivery with retry (main-server/src/utils/callback.js)\<close>

text \<open>
  The module keeps its state in module-level variables (\<open>stopCallbackRetry\<close>,
  \<open>pendingCallbacksCount\<close>, \<open>pendingCallback\<close>, \<open>waitPromises\<close>) and in the cache
  database. \<open>callbackWithRetry\<close> is an \<open>async\<close> function: it runs on a single thread and
  gives control back at each \<open>await\<close>. The model keeps one record per activation of
  \<open>callbackWithRetry\<close> with the point where it is suspended, and one event for each
  resumption. Everything between two suspension points is one atomic state update, as it
  is on the JavaScript event loop. What the outside world decides (the result of the HTTP
  request, the value of \<open>backoff.next()\<close>, the readings of \<open>Date.now()\<close>, the result of
  the should-retry function, a throw from a function that is not among the sources)
  travels in the event.
\<close>

datatype mode = STANDALONE | MASTER | WORKER

record config =
  cfg_mode :: mode
  cfg_callbackRetryTimeout :: int

text \<open>JavaScript truthiness of an optional string (\<open>undefined\<close> and \<open>''\<close> are falsy).\<close>

definition truthy_string :: "string option \<Rightarrow> bool" where
  "truthy_string v = (case v of None \<Rightarrow> False | Some x \<Rightarrow> x \<noteq> [])"

record cb_args =
  callbackUrl :: string
  body :: string
  cbId :: string
  shouldRetryFnName :: "string option"
  shouldRetryArguments :: "string list"
  responseCallbackFnName :: "string option"
  dataForResponseCallback :: string
  deadline :: "int option"

record http_response =
  resp_status :: int
  resp_body :: string

datatype js_error = JsError (err_name: string) (err_type: string)

text \<open>\<open>error.name === 'FetchError' && error.type === 'max-size'\<close>\<close>

definition is_max_size :: "js_error \<Rightarrow> bool" where
  "is_max_size e = (err_name e = ''FetchError'' \<and> err_type e = ''max-size'')"

definition RESPONSE_BODY_SIZE_LIMIT :: int where
  "RESPONSE_BODY_SIZE_LIMIT = 3 * 1024 * 1024"

datatype error_type = BODY_TOO_LARGE

datatype response_arg = ResponseObj http_response | ResponseError error_type

datatype metric =
    PendingCallbacksCount int
  | CallbackTime int bool int
  | CallbackFail
  | CallbackTimedOut

text \<open>The outcome of \<open>await getShouldRetryFn(name)(...args)\<close>: a value, by its
  truthiness, or an exception.\<close>

datatype should_retry_outcome = Returns bool | Throws

datatype exit = Delivered | BodyTooLarge | Vetoed | TimedOut | Halted

text \<open>Where an activation of \<open>callbackWithRetry\<close> stands. \<open>AwaitWait n stopped\<close>: it
  sleeps for \<open>n\<close> milliseconds, and \<open>stopped\<close> tells whether \<open>stop()\<close> was called on its
  wait promise.\<close>

datatype pc =
    LoopHead
  | AwaitHttpPost
  | AwaitShouldRetry int
  | AwaitWait int bool
  | Returned exit

record activation =
  args :: cb_args
  startTime :: int
  at :: pc

record cb_state =
  stopCallbackRetry :: bool
  pendingCallbacksCount :: int
  pendingCallback :: "string \<rightharpoonup> int"
  waitPromises :: "nat list"
  callbackWithRetryData :: "string \<rightharpoonup> cb_args"
  emitted :: "metric list"
  responseCallbackCalls :: "(nat \<times> string \<times> response_arg \<times> string) list"
  responseCallbackThrows :: "(nat \<times> string \<times> response_arg \<times> string) list"
  httpPosts :: "nat list"
  activations :: "activation list"

text \<open>\<open>emitted\<close>, \<open>httpPosts\<close>, \<open>responseCallbackCalls\<close> and \<open>responseCallbackThrows\<close> are
  history variables: the events emitted, the activations that called \<open>httpPost\<close>, the calls
  of response callbacks that returned and those that threw.

  The module as loaded, over the cache database as the process finds it.\<close>

definition cb_init :: "(string \<rightharpoonup> cb_args) \<Rightarrow> cb_state" where
  "cb_init db = \<lparr> stopCallbackRetry = False, pendingCallbacksCount = 0,
     pendingCallback = Map.empty, waitPromises = [], callbackWithRetryData = db,
     emitted = [], responseCallbackCalls = [], responseCallbackThrows = [], httpPosts = [],
     activations = [] \<rparr>"

text \<open>\<open>cacheDb.setCallbackWithRetryData(config.nodeId, cbId, {...})\<close>, which
  \<open>callbackToClient\<close> awaits before it calls \<open>callbackWithRetry\<close>.\<close>

definition setCallbackWithRetryData :: "cb_args \<Rightarrow> cb_state \<Rightarrow> cb_state" where
  "setCallbackWithRetryData a s =
     s\<lparr> callbackWithRetryData := (callbackWithRetryData s)(cbId a \<mapsto> a) \<rparr>"

definition incrementPendingCallbacksCount :: "cb_state \<Rightarrow> cb_state" where
  "incrementPendingCallbacksCount s =
     s\<lparr> pendingCallbacksCount := pendingCallbacksCount s + 1,
        emitted := emitted s @ [PendingCallbacksCount (pendingCallbacksCount s + 1)] \<rparr>"

definition decrementPendingCallbacksCount :: "cb_state \<Rightarrow> cb_state" where
  "decrementPendingCallbacksCount s =
     s\<lparr> pendingCallbacksCount := pendingCallbacksCount s - 1,
        emitted := emitted s @ [PendingCallbacksCount (pendingCallbacksCount s - 1)] \<rparr>"

definition emit :: "metric \<Rightarrow> cb_state \<Rightarrow> cb_state" where
  "emit m s = s\<lparr> emitted := emitted s @ [m] \<rparr>"

definition removeCallbackWithRetryData :: "string \<Rightarrow> cb_state \<Rightarrow> cb_state" where
  "removeCallbackWithRetryData c s =
     s\<lparr> callbackWithRetryData := (callbackWithRetryData s)(c := None) \<rparr>"

definition set_at :: "nat \<Rightarrow> pc \<Rightarrow> cb_state \<Rightarrow> cb_state" where
  "set_at t p s = s\<lparr> activations := (activations s)[t := (activations s ! t)\<lparr> at := p \<rparr>] \<rparr>"

text \<open>\<open>if (responseCallbackFnName) getResponseCallbackFn(responseCallbackFnName)(arg, data)\<close>,
  when the call returns. The functions that \<open>getResponseCallbackFn\<close> looks up are not
  among the sources; the result of the call is not awaited.\<close>

definition call_response_callback :: "nat \<Rightarrow> cb_args \<Rightarrow> response_arg \<Rightarrow> cb_state \<Rightarrow> cb_state" where
  "call_response_callback t a r s =
     (case responseCallbackFnName a of
        None \<Rightarrow> s
      | Some n \<Rightarrow>
          if n = [] then s
          else s\<lparr> responseCallbackCalls :=
                 responseCallbackCalls s @ [(t, n, r, dataForResponseCallback a)] \<rparr>)"

text \<open>The same call when the lookup or the function throws.\<close>

definition throw_response_callback :: "nat \<Rightarrow> cb_args \<Rightarrow> response_arg \<Rightarrow> cb_state \<Rightarrow> cb_state" where
  "throw_response_callback t a r s =
     s\<lparr> responseCallbackThrows :=
          responseCallbackThrows s @
            [(t, the (responseCallbackFnName a), r, dataForResponseCallback a)] \<rparr>"

text \<open>The head of \<open>for (;;)\<close>: \<open>if (stopCallbackRetry) return;\<close> and then the call of
  \<open>httpPost\<close>, which is the next suspension point.\<close>

definition loop_head :: "nat \<Rightarrow> cb_state \<Rightarrow> cb_state" where
  "loop_head t s =
     (if stopCallbackRetry s then set_at t (Returned Halted) s
      else (set_at t AwaitHttpPost s)\<lparr> httpPosts := httpPosts s @ [t] \<rparr>)"

text \<open>Entry of \<open>callbackWithRetry\<close> up to its first suspension. \<open>now0\<close> is the reading
  of \<open>Date.now()\<close> for \<open>startTime\<close>, \<open>now1\<close> the one for the worker's deadline.\<close>

definition callbackWithRetry :: "config \<Rightarrow> cb_args \<Rightarrow> int \<Rightarrow> int \<Rightarrow> cb_state \<Rightarrow> cb_state" where
  "callbackWithRetry cfg a now0 now1 s =
     (let s1 = incrementPendingCallbacksCount s;
          s2 = (if cfg_mode cfg = WORKER
                then s1\<lparr> pendingCallback := (pendingCallback s1)(cbId a \<mapsto>
                       (case deadline a of
                          None \<Rightarrow> now1 + cfg_callbackRetryTimeout cfg * 1000
                        | Some d \<Rightarrow> if d \<noteq> 0 then d
                                    else now1 + cfg_callbackRetryTimeout cfg * 1000)) \<rparr>
                else s1);
          t = length (activations s2);
          s3 = s2\<lparr> activations := activations s2 @
                 [\<lparr> args = a, startTime = now0, at = LoopHead \<rparr>] \<rparr>
      in loop_head t s3)"

text \<open>\<open>const waitPromise = wait(nextRetry, true); waitPromises.push(waitPromise); await waitPromise;\<close>\<close>

definition start_wait :: "nat \<Rightarrow> int \<Rightarrow> cb_state \<Rightarrow> cb_state" where
  "start_wait t nextRetry s =
     (set_at t (AwaitWait nextRetry False) s)\<lparr> waitPromises := waitPromises s @ [t] \<rparr>"

text \<open>\<open>httpPost\<close> rejected: the \<open>catch\<close> block up to its next suspension or return.
  \<open>nowD\<close> is the reading of \<open>Date.now()\<close> compared with the deadline, \<open>nowT\<close> the one
  used for the elapsed time. Nothing catches what is thrown inside the \<open>catch\<close> block;
  the response callback and the listeners called there are taken to return.\<close>

definition on_httpPost_rejected ::
  "config \<Rightarrow> nat \<Rightarrow> js_error \<Rightarrow> int \<Rightarrow> int \<Rightarrow> int \<Rightarrow> cb_state \<Rightarrow> cb_state" where
  "on_httpPost_rejected cfg t err nextRetry nowD nowT s =
     (let a = args (activations s ! t) in
      if is_max_size err then
        (let s1 = decrementPendingCallbacksCount s;
             s2 = removeCallbackWithRetryData (cbId a) s1;
             s3 = call_response_callback t a (ResponseError BODY_TOO_LARGE) s2;
             s4 = emit CallbackFail s3
         in set_at t (Returned BodyTooLarge) s4)
      else if truthy_string (shouldRetryFnName a) then
        set_at t (AwaitShouldRetry nextRetry) s
      else if (case deadline a of None \<Rightarrow> True | Some d \<Rightarrow> d = 0 \<or> nowD < d) \<and>
              nowT - startTime (activations s ! t) + nextRetry
                > cfg_callbackRetryTimeout cfg * 1000 then
        (let s1 = decrementPendingCallbacksCount s;
             s2 = removeCallbackWithRetryData (cbId a) s1;
             s3 = emit CallbackTimedOut s2
         in set_at t (Returned TimedOut) s3)
      else start_wait t nextRetry s)"

text \<open>How the rest of the \<open>try\<close> block goes once \<open>await httpPost(...)\<close> has resolved: it
  runs to its \<open>return\<close>, or one of its calls throws, which takes control to the same
  \<open>catch\<close> block as a failed request. What can throw there is not among the sources: a
  listener of \<open>pendingCallbacksCount\<close> (called inside \<open>decrementPendingCallbacksCount()\<close>,
  after the counter was decremented), a listener of \<open>callbackTime\<close>, and the response
  callback or its lookup. \<open>ThrowsAt p err nextRetry nowD nowT\<close> carries the error and what
  the \<open>catch\<close> block then reads: \<open>backoff.next()\<close> and \<open>Date.now()\<close> twice.\<close>

datatype try_point = CountListener | TimeListener | ResponseCallback

datatype try_outcome = Completes | ThrowsAt try_point js_error int int int

text \<open>\<open>httpPost\<close> resolved: the \<open>try\<close> block after the \<open>await\<close>. Without a response callback
  name nothing is called at \<open>ResponseCallback\<close>, and the block returns.\<close>

definition on_httpPost_resolved ::
  "config \<Rightarrow> nat \<Rightarrow> http_response \<Rightarrow> int \<Rightarrow> try_outcome \<Rightarrow> cb_state \<Rightarrow> cb_state" where
  "on_httpPost_resolved cfg t resp now outcome s =
     (let a = args (activations s ! t);
          s1 = (if cfg_mode cfg = WORKER
                then s\<lparr> pendingCallback := (pendingCallback s)(cbId a := None) \<rparr> else s);
          s2 = decrementPendingCallbacksCount s1;
          s3 = emit (CallbackTime (resp_status resp) (resp_body resp \<noteq> [])
                       (now - startTime (activations s ! t))) s2;
          s4 = removeCallbackWithRetryData (cbId a) s3
      in case outcome of
           Completes \<Rightarrow>
             set_at t (Returned Delivered) (call_response_callback t a (ResponseObj resp) s4)
         | ThrowsAt p err nextRetry nowD nowT \<Rightarrow>
             (case p of
                CountListener \<Rightarrow> on_httpPost_rejected cfg t err nextRetry nowD nowT s2
              | TimeListener \<Rightarrow> on_httpPost_rejected cfg t err nextRetry nowD nowT s3
              | ResponseCallback \<Rightarrow>
                  if truthy_string (responseCallbackFnName a)
                  then on_httpPost_rejected cfg t err nextRetry nowD nowT
                         (throw_response_callback t a (ResponseObj resp) s4)
                  else set_at t (Returned Delivered) s4))"

text \<open>The should-retry function settled: \<open>shouldRetry\<close> is its value, or \<open>true\<close> when it
  threw.\<close>

definition on_shouldRetry_settled ::
  "nat \<Rightarrow> should_retry_outcome \<Rightarrow> int \<Rightarrow> cb_state \<Rightarrow> cb_state" where
  "on_shouldRetry_settled t outcome nextRetry s =
     (let a = args (activations s ! t);
          shouldRetry = (case outcome of Returns b \<Rightarrow> b | Throws \<Rightarrow> True) in
      if \<not> shouldRetry then
        (let s1 = decrementPendingCallbacksCount s;
             s2 = removeCallbackWithRetryData (cbId a) s1;
             s3 = emit CallbackFail s2
         in set_at t (Returned Vetoed) s3)
      else start_wait t nextRetry s)"

text \<open>\<open>waitPromises.splice(waitPromises.indexOf(waitPromise), 1)\<close>: with index \<open>-1\<close>,
  \<open>splice\<close> removes the last element.\<close>

definition splice_out :: "nat \<Rightarrow> nat list \<Rightarrow> nat list" where
  "splice_out t ws = (if t \<in> set ws then remove1 t ws else butlast ws)"

definition on_wait_settled :: "nat \<Rightarrow> cb_state \<Rightarrow> cb_state" where
  "on_wait_settled t s = loop_head t (s\<lparr> waitPromises := splice_out t (waitPromises s) \<rparr>)"

text \<open>Modelled from the spec: \<open>wait\<close> of this version of the module is not among the
  sources. The sleep "is tracked and can be interrupted by the global stop signal", which
  "cancels all in-flight backoff sleeps", so that "the retry loop exits immediately":
  \<open>stop()\<close> ends the sleep of that activation. \<open>stop_wait\<close> is \<open>waitPromise.stop()\<close>: it
  marks the sleep as ended.\<close>

definition stop_wait :: "nat \<Rightarrow> cb_state \<Rightarrow> cb_state" where
  "stop_wait t s =
     (if t < length (activations s) then
        (case at (activations s ! t) of
           AwaitWait n b \<Rightarrow> set_at t (AwaitWait n True) s
         | _ \<Rightarrow> s)
      else s)"

text \<open>\<open>stopCallbackRetry = true; waitPromises.forEach((waitPromise) => waitPromise.stop())\<close>\<close>

definition stopAllCallbackRetries :: "cb_state \<Rightarrow> cb_state" where
  "stopAllCallbackRetries s =
     foldr stop_wait (waitPromises s) (s\<lparr> stopCallbackRetry := True \<rparr>)"

definition suspended_at :: "nat \<Rightarrow> cb_state \<Rightarrow> pc option" where
  "suspended_at t s = (if t < length (activations s) then Some (at (activations s ! t)) else None)"

text \<open>Modelled from the spec: what \<open>wait\<close> does with a sleep that \<open>stop()\<close> has ended is not
  among the sources either. The activation goes on after its \<open>await waitPromise\<close>;
  \<open>resume_stopped\<close> is that continuation for a sleep marked as ended, and
  \<open>resume_all_stopped\<close> runs it for the sleeps of \<open>waitPromises\<close> in their order. They run
  as soon as the caller of \<open>stopAllCallbackRetries\<close> has returned, before any other
  event.\<close>

definition resume_stopped :: "nat \<Rightarrow> cb_state \<Rightarrow> cb_state" where
  "resume_stopped t s =
     (case suspended_at t s of
        Some (AwaitWait n b) \<Rightarrow> if b then on_wait_settled t s else s
      | _ \<Rightarrow> s)"

definition resume_all_stopped :: "nat list \<Rightarrow> cb_state \<Rightarrow> cb_state" where
  "resume_all_stopped ws s = fold resume_stopped ws s"

text \<open>\<open>resumeCallbackToClient\<close> once \<open>cacheDb.getAllCallbackWithRetryData\<close> has answered
  with \<open>callbackDatum\<close>: \<open>callbackWithRetry\<close> is called for each entry, without a deadline.
  Each entry comes with the two readings of \<open>Date.now()\<close> of its call.\<close>

definition resumeCallbackToClient :: "config \<Rightarrow> (cb_args \<times> int \<times> int) list \<Rightarrow> cb_state \<Rightarrow> cb_state" where
  "resumeCallbackToClient cfg callbackDatum s =
     fold (\<lambda>(a, now0, now1). callbackWithRetry cfg (a\<lparr> deadline := None \<rparr>) now0 now1)
       callbackDatum s"

datatype cb_event =
    Call_setCallbackWithRetryData cb_args
  | Call_callbackWithRetry cb_args int int
  | HttpPostResolved nat http_response int
  | HttpPostResolvedThrows nat http_response int try_point js_error int int int
  | HttpPostRejected nat js_error int int int
  | ShouldRetrySettled nat should_retry_outcome
  | WaitSettled nat
  | Call_stopAllCallbackRetries
  | ResumeAnswered "(cb_args \<times> int \<times> int) list"

text \<open>One event of the module. \<open>HttpPostResolved\<close> is a request that resolved with the
  \<open>try\<close> block running to its \<open>return\<close>, \<open>HttpPostResolvedThrows\<close> one that resolved with
  a throw later in the \<open>try\<close> block.\<close>

fun cb_step :: "config \<Rightarrow> cb_event \<Rightarrow> cb_state \<Rightarrow> cb_state" where
  "cb_step cfg (Call_setCallbackWithRetryData a) s = setCallbackWithRetryData a s"
| "cb_step cfg (Call_callbackWithRetry a now0 now1) s = callbackWithRetry cfg a now0 now1 s"
| "cb_step cfg (HttpPostResolved t resp now) s =
     (case suspended_at t s of
        Some AwaitHttpPost \<Rightarrow> on_httpPost_resolved cfg t resp now Completes s
      | _ \<Rightarrow> s)"
| "cb_step cfg (HttpPostResolvedThrows t resp now p err nextRetry nowD nowT) s =
     (case suspended_at t s of
        Some AwaitHttpPost \<Rightarrow>
          on_httpPost_resolved cfg t resp now (ThrowsAt p err nextRetry nowD nowT) s
      | _ \<Rightarrow> s)"
| "cb_step cfg (HttpPostRejected t err nextRetry nowD nowT) s =
     (case suspended_at t s of
        Some AwaitHttpPost \<Rightarrow> on_httpPost_rejected cfg t err nextRetry nowD nowT s
      | _ \<Rightarrow> s)"
| "cb_step cfg (ShouldRetrySettled t outcome) s =
     (case suspended_at t s of
        Some (AwaitShouldRetry nextRetry) \<Rightarrow> on_shouldRetry_settled t outcome nextRetry s
      | _ \<Rightarrow> s)"
| "cb_step cfg (WaitSettled t) s =
     (case suspended_at t s of
        Some (AwaitWait n b) \<Rightarrow> on_wait_settled t s
      | _ \<Rightarrow> s)"
| "cb_step cfg Call_stopAllCallbackRetries s =
     resume_all_stopped (waitPromises s) (stopAllCallbackRetries s)"
| "cb_step cfg (ResumeAnswered callbackDatum) s = resumeCallbackToClient cfg callbackDatum s"

fun cb_run :: "config \<Rightarrow> cb_event list \<Rightarrow> cb_state \<Rightarrow> cb_state" where
  "cb_run cfg [] s = s"
| "cb_run cfg (e # es) s = cb_run cfg es (cb_step cfg e s)"

subsection \<open>Invariant of the callback module and sample inputs\<close>

text \<open>What \<open>stop()\<close> does to a suspension point.\<close>

fun stopped_pc :: "bool \<Rightarrow> pc \<Rightarrow> pc" where
  "stopped_pc c (AwaitWait n b) = AwaitWait n (b \<or> c)"
| "stopped_pc c p = p"

text \<open>What the continuation of a stopped sleep does to a suspension point once the stop
  flag is set.\<close>

fun resumed_pc :: "bool \<Rightarrow> pc \<Rightarrow> pc" where
  "resumed_pc c (AwaitWait n b) = (if b \<and> c then Returned Halted else AwaitWait n b)"
| "resumed_pc c p = p"

text \<open>Every HTTP attempt and every response callback call that returned belongs to an
  activation; such a call was only made by an activation that has returned; a sleeping
  activation has its wait promise in \<open>waitPromises\<close>, and its sleep has not been stopped.\<close>

definition cb_inv :: "cb_state \<Rightarrow> bool" where
  "cb_inv s \<longleftrightarrow>
     (\<forall>t \<in> set (httpPosts s). t < length (activations s)) \<and>
     (\<forall>c \<in> set (responseCallbackCalls s). fst c < length (activations s) \<and>
        (at (activations s ! fst c) = Returned Delivered \<or>
         at (activations s ! fst c) = Returned BodyTooLarge)) \<and>
     (\<forall>t n b. t < length (activations s) \<longrightarrow> at (activations s ! t) = AwaitWait n b
        \<longrightarrow> t \<in> set (waitPromises s)) \<and>
     (\<forall>t n. t < length (activations s) \<longrightarrow> at (activations s ! t) \<noteq> AwaitWait n True)"

definition cfg_example :: config where
  "cfg_example = \<lparr> cfg_mode = STANDALONE, cfg_callbackRetryTimeout = 10 \<rparr>"

definition args_example :: cb_args where
  "args_example = \<lparr> callbackUrl = ''http://client/callback'', body = ''{}'', cbId = ''cb1'',
     shouldRetryFnName = None, shouldRetryArguments = [],
     responseCallbackFnName = Some ''onResponse'', dataForResponseCallback = ''data'',
     deadline = None \<rparr>"

definition awaiting_example :: cb_state where
  "awaiting_example = cb_run cfg_example
     [Call_setCallbackWithRetryData args_example, Call_callbackWithRetry args_example 0 0]
     (cb_init Map.empty)"

definition args_pred_example :: cb_args where
  "args_pred_example = \<lparr> callbackUrl = ''http://client/callback'', body = ''{}'', cbId = ''cb2'',
     shouldRetryFnName = Some ''shouldRetry'', shouldRetryArguments = [''req-1''],
     responseCallbackFnName = None, dataForResponseCallback = [],
     deadline = None \<rparr>"

definition asking_example :: cb_state where
  "asking_example = cb_run cfg_example
     [Call_setCallbackWithRetryData args_pred_example,
      Call_callbackWithRetry args_pred_example 0 0,
      HttpPostRejected 0 (JsError ''FetchError'' ''system'') 5000 100 100]
     (cb_init Map.empty)"

definition sleeping_example :: cb_state where
  "sleeping_example = cb_run cfg_example
     [Call_setCallbackWithRetryData args_pred_example,
      Call_callbackWithRetry args_pred_example 0 0,
      HttpPostRejected 0 (JsError ''FetchError'' ''system'') 5000 100 100,
      ShouldRetrySettled 0 (Returns True)]
     (cb_init Map.empty)"

text \<open>A delivery whose request is in flight when the retries are stopped, and the same
  after that request has failed; a delivery stopped while its should-retry function is
  asked, and the same after that function has asked for a retry.\<close>

definition stopped_inflight_example :: cb_state where
  "stopped_inflight_example = cb_step cfg_example Call_stopAllCallbackRetries awaiting_example"

definition inflight_failed_example :: cb_state where
  "inflight_failed_example =
     cb_step cfg_example (HttpPostRejected 0 (JsError ''FetchError'' ''system'') 5000 6000 6000)
       stopped_inflight_example"

definition stopped_asking_example :: cb_state where
  "stopped_asking_example = cb_step cfg_example Call_stopAllCallbackRetries asking_example"

definition late_sleep_example :: cb_state where
  "late_sleep_example =
     cb_step cfg_example (ShouldRetrySettled 0 (Returns True)) stopped_asking_example"

text \<open>A delivery whose response callback throws on the response of a request that
  succeeded, and whose next request succeeds as well.\<close>

definition thrown_events :: "cb_event list" where
  "thrown_events =
     [Call_setCallbackWithRetryData args_example,
      Call_callbackWithRetry args_example 0 0,
      HttpPostResolvedThrows 0 \<lparr> resp_status = 200, resp_body = ''ok'' \<rparr> 50
        ResponseCallback (JsError ''TypeError'' []) 5000 100 100,
      WaitSettled 0,
      HttpPostResolved 0 \<lparr> resp_status = 200, resp_body = ''ok'' \<rparr> 5200]"

definition args_deadline_example :: cb_args where
  "args_deadline_example = \<lparr> callbackUrl = ''http://client/callback'', body = ''{}'',
     cbId = ''cb3'', shouldRetryFnName = None, shouldRetryArguments = [],
     responseCallbackFnName = None, dataForResponseCallback = [],
     deadline = Some 5000 \<rparr>"

section \<open>The per-request task queue (src/unnamed/part_000, second file)\<close>

text \<open>
  Module state: \<open>requestQueue\<close>, \<open>requestQueueRunning\<close>, three counters, and the
  persistent queue in the cache database. As in the callback module every \<open>async\<close>
  function is cut at its \<open>await\<close>s, and the state records what is suspended:
  \<^item> \<open>adding\<close>: activations of \<open>addTaskToQueue\<close> awaiting
    \<open>cacheDb.addTaskToPersistentQueue\<close>;
  \<^item> \<open>immediates\<close>: pending \<open>setImmediate(executeTaskInQueue, requestId)\<close>;
  \<^item> \<open>executing\<close>: task callbacks that were started and have not settled, each with
    its \<open>removePersistentQueuePromise\<close> when there is one (\<open>Some resolved\<close>);
  \<^item> \<open>removing\<close>: activations of \<open>executeTaskInQueue\<close> awaiting
    \<open>cacheDb.removeFirstTaskFromPersistentQueue\<close>;
  \<^item> \<open>thenWaiting\<close>: reactions \<open>removePersistentQueuePromise.then(...)\<close> registered on a
    promise that is not resolved yet.
  A database operation takes effect when its \<open>await\<close> resumes. Operations of the database
  are taken to succeed. \<open>trace\<close> is a history variable: tasks pushed, callbacks started,
  and completion handlers returned. Startup recovery
  (\<open>restoreTaskFromPersistentQueue\<close>) is outside the model.
\<close>

datatype handler = ReleaseLock | ReleaseLockAndCleanUp

record task =
  task_nodeId :: string
  callbackFnName :: string
  callbackArgs :: "string list"
  onCallbackFinished :: "handler option"
  onCallbackFinishedArgs :: "string list"
  task_startTime :: int

datatype q_error = TypeError_push string | TypeError_shift string | TypeError_length string
  | Unsupported_mode

datatype q_metric =
    PendingTasksInQueueCount int
  | ProcessingTasksCount int
  | RequestsInQueueCount int
  | TaskPendingTime int
  | TaskProcessTime int
  | TaskProcessFail

datatype q_obs = Pushed string task | Started string task | Finished string task

record execution =
  ex_key :: string
  ex_task :: task
  ex_promise :: "bool option"
  ex_startTime :: int

record q_state =
  requestQueue :: "string \<rightharpoonup> task list"
  requestQueueRunning :: "string set"
  pendingTasksInQueueCount :: int
  processingTasksCount :: int
  requestsInQueueCount :: int
  persistentQueue :: "string \<Rightarrow> task list"
  adding :: "(string \<times> task) list"
  immediates :: "string list"
  executing :: "execution list"
  removing :: "string list"
  thenWaiting :: "string list"
  uncaught :: "q_error list"
  q_emitted :: "q_metric list"
  handlerCalls :: "(handler \<times> string list) list"
  trace :: "q_obs list"

definition q_init :: "(string \<Rightarrow> task list) \<Rightarrow> q_state" where
  "q_init db = \<lparr> requestQueue = Map.empty, requestQueueRunning = {},
     pendingTasksInQueueCount = 0, processingTasksCount = 0, requestsInQueueCount = 0,
     persistentQueue = db, adding = [], immediates = [], executing = [], removing = [],
     thenWaiting = [], uncaught = [], q_emitted = [], handlerCalls = [], trace = [] \<rparr>"

definition incrementPendingTasksInQueueCount :: "q_state \<Rightarrow> q_state" where
  "incrementPendingTasksInQueueCount s =
     s\<lparr> pendingTasksInQueueCount := pendingTasksInQueueCount s + 1,
        q_emitted := q_emitted s @ [PendingTasksInQueueCount (pendingTasksInQueueCount s + 1)] \<rparr>"

definition decrementPendingTasksInQueueCount :: "q_state \<Rightarrow> q_state" where
  "decrementPendingTasksInQueueCount s =
     s\<lparr> pendingTasksInQueueCount := pendingTasksInQueueCount s - 1,
        q_emitted := q_emitted s @ [PendingTasksInQueueCount (pendingTasksInQueueCount s - 1)] \<rparr>"

definition incrementProcessingTasksCount :: "q_state \<Rightarrow> q_state" where
  "incrementProcessingTasksCount s =
     s\<lparr> processingTasksCount := processingTasksCount s + 1,
        q_emitted := q_emitted s @ [ProcessingTasksCount (processingTasksCount s + 1)] \<rparr>"

definition decrementProcessingTasksCount :: "q_state \<Rightarrow> q_state" where
  "decrementProcessingTasksCount s =
     s\<lparr> processingTasksCount := processingTasksCount s - 1,
        q_emitted := q_emitted s @ [ProcessingTasksCount (processingTasksCount s - 1)] \<rparr>"

definition incrementRequestsInQueueCount :: "q_state \<Rightarrow> q_state" where
  "incrementRequestsInQueueCount s =
     s\<lparr> requestsInQueueCount := requestsInQueueCount s + 1,
        q_emitted := q_emitted s @ [RequestsInQueueCount (requestsInQueueCount s + 1)] \<rparr>"

definition decrementRequestsInQueueCount :: "q_state \<Rightarrow> q_state" where
  "decrementRequestsInQueueCount s =
     s\<lparr> requestsInQueueCount := requestsInQueueCount s - 1,
        q_emitted := q_emitted s @ [RequestsInQueueCount (requestsInQueueCount s - 1)] \<rparr>"

definition q_emit :: "q_metric \<Rightarrow> q_state \<Rightarrow> q_state" where
  "q_emit m s = s\<lparr> q_emitted := q_emitted s @ [m] \<rparr>"

definition cleanUpQueue :: "string \<Rightarrow> q_state \<Rightarrow> q_state" where
  "cleanUpQueue requestId s =
     decrementRequestsInQueueCount (s\<lparr> requestQueue := (requestQueue s)(requestId := None) \<rparr>)"

text \<open>\<open>addTaskToQueue\<close> up to \<open>await cacheDb.addTaskToPersistentQueue(...)\<close>.\<close>

definition addTaskToQueue :: "string \<Rightarrow> task \<Rightarrow> q_state \<Rightarrow> q_state" where
  "addTaskToQueue requestId taskData s =
     (let s1 = (if requestQueue s requestId = None
                then incrementRequestsInQueueCount
                       (s\<lparr> requestQueue := (requestQueue s)(requestId \<mapsto> []) \<rparr>)
                else s)
      in s1\<lparr> adding := adding s1 @ [(requestId, taskData)] \<rparr>)"

text \<open>\<open>addTaskToQueue\<close> after the \<open>await\<close>: the record is in the persistent queue;
  \<open>requestQueue[requestId].push(taskData)\<close> throws a TypeError when the queue of that request
  was deleted in the meantime.\<close>

definition addTaskToQueue_resume :: "string \<Rightarrow> task \<Rightarrow> q_state \<Rightarrow> q_state" where
  "addTaskToQueue_resume requestId taskData s =
     (let s1 = s\<lparr> persistentQueue := (persistentQueue s)
                    (requestId := persistentQueue s requestId @ [taskData]) \<rparr>
      in case requestQueue s1 requestId of
           None \<Rightarrow> s1\<lparr> uncaught := uncaught s1 @ [TypeError_push requestId] \<rparr>
         | Some q \<Rightarrow>
             (let s2 = s1\<lparr> requestQueue := (requestQueue s1)(requestId \<mapsto> q @ [taskData]),
                           trace := trace s1 @ [Pushed requestId taskData] \<rparr>;
                  s3 = incrementPendingTasksInQueueCount s2
              in s3\<lparr> immediates := immediates s3 @ [requestId] \<rparr>))"

text \<open>\<open>executeTaskInQueue\<close> up to \<open>await cacheDb.removeFirstTaskFromPersistentQueue(...)\<close>.
  In standalone mode the callback is called here; in master mode it is handed to
  \<open>delegateToWorker\<close>; any other mode throws after the task was taken from the queue.\<close>

definition executeTaskInQueue :: "mode \<Rightarrow> string \<Rightarrow> int \<Rightarrow> q_state \<Rightarrow> q_state" where
  "executeTaskInQueue m requestId now s =
     (if requestId \<in> requestQueueRunning s then s
      else case requestQueue s requestId of
             None \<Rightarrow> s\<lparr> uncaught := uncaught s @ [TypeError_shift requestId] \<rparr>
           | Some [] \<Rightarrow> cleanUpQueue requestId s
           | Some (task # rest) \<Rightarrow>
               (let s1 = s\<lparr> requestQueue := (requestQueue s)(requestId \<mapsto> rest),
                             requestQueueRunning := insert requestId (requestQueueRunning s) \<rparr>;
                    s2 = decrementPendingTasksInQueueCount s1;
                    s3 = q_emit (TaskPendingTime (now - task_startTime task)) s2;
                    s4 = incrementProcessingTasksCount s3
                in case m of
                     STANDALONE \<Rightarrow>
                       s4\<lparr> executing := executing s4 @
                              [\<lparr> ex_key = requestId, ex_task = task, ex_promise = Some False,
                                 ex_startTime = now \<rparr>],
                           trace := trace s4 @ [Started requestId task],
                           removing := removing s4 @ [requestId] \<rparr>
                   | MASTER \<Rightarrow>
                       s4\<lparr> executing := executing s4 @
                              [\<lparr> ex_key = requestId, ex_task = task, ex_promise = None,
                                 ex_startTime = now \<rparr>],
                           trace := trace s4 @ [Started requestId task],
                           removing := removing s4 @ [requestId] \<rparr>
                   | WORKER \<Rightarrow> s4\<lparr> uncaught := uncaught s4 @ [Unsupported_mode] \<rparr>))"

text \<open>\<open>executeTaskInQueue\<close> after the \<open>await\<close>: the first persisted task of the request
  is gone, and \<open>removePersistentQueueEmitter.emit(requestId)\<close> resolves every promise
  listening for that request.\<close>

definition executeTaskInQueue_resume :: "string \<Rightarrow> q_state \<Rightarrow> q_state" where
  "executeTaskInQueue_resume requestId s =
     s\<lparr> persistentQueue := (persistentQueue s)(requestId := tl (persistentQueue s requestId)),
        executing := map (\<lambda>e. if ex_key e = requestId \<and> ex_promise e = Some False
                                then e\<lparr> ex_promise := Some True \<rparr> else e) (executing s),
        thenWaiting := filter (\<lambda>k. k \<noteq> requestId) (thenWaiting s),
        immediates := immediates s @ filter (\<lambda>k. k = requestId) (thenWaiting s) \<rparr>"

definition onTaskExecutionFinished :: "string \<Rightarrow> task \<Rightarrow> bool option \<Rightarrow> q_state \<Rightarrow> q_state" where
  "onTaskExecutionFinished requestId task removePersistentQueuePromise s =
     (let s1 = decrementProcessingTasksCount s;
          s2 = (case onCallbackFinished task of
                  None \<Rightarrow> s1
                | Some h \<Rightarrow> s1\<lparr> handlerCalls := handlerCalls s1 @
                                   [(h, onCallbackFinishedArgs task)] \<rparr>);
          s3 = s2\<lparr> trace := trace s2 @ [Finished requestId task],
                    requestQueueRunning := requestQueueRunning s2 - {requestId} \<rparr>
      in case requestQueue s3 requestId of
           None \<Rightarrow> s3\<lparr> uncaught := uncaught s3 @ [TypeError_length requestId] \<rparr>
         | Some q \<Rightarrow>
             if q = [] then cleanUpQueue requestId s3
             else (case removePersistentQueuePromise of
                     None \<Rightarrow> s3\<lparr> immediates := immediates s3 @ [requestId] \<rparr>
                   | Some True \<Rightarrow> s3\<lparr> immediates := immediates s3 @ [requestId] \<rparr>
                   | Some False \<Rightarrow> s3\<lparr> thenWaiting := thenWaiting s3 @ [requestId] \<rparr>))"

text \<open>The callback of a task settled (its promise, or the worker's answer):
  \<open>onTaskExecutionSuccess\<close> or \<open>onTaskExecutionFail\<close>, then \<open>onTaskExecutionFinished\<close>.\<close>

definition on_callback_settled :: "execution \<Rightarrow> bool \<Rightarrow> int \<Rightarrow> q_state \<Rightarrow> q_state" where
  "on_callback_settled e ok now s =
     (let s1 = (if ok then q_emit (TaskProcessTime (now - ex_startTime e)) s
                else q_emit TaskProcessFail s)
      in onTaskExecutionFinished (ex_key e) (ex_task e) (ex_promise e) s1)"

definition drop_nth :: "nat \<Rightarrow> 'a list \<Rightarrow> 'a list" where
  "drop_nth n xs = take n xs @ drop (Suc n) xs"

datatype q_event =
    Call_addTaskToQueue string task
  | AddPersisted nat
  | Immediate nat int
  | CallbackSettled nat bool int
  | RemovePersisted nat

fun q_step :: "mode \<Rightarrow> q_event \<Rightarrow> q_state \<Rightarrow> q_state" where
  "q_step m (Call_addTaskToQueue requestId taskData) s = addTaskToQueue requestId taskData s"
| "q_step m (AddPersisted n) s =
     (if n < length (adding s)
      then addTaskToQueue_resume (fst (adding s ! n)) (snd (adding s ! n))
             (s\<lparr> adding := drop_nth n (adding s) \<rparr>)
      else s)"
| "q_step m (Immediate n now) s =
     (if n < length (immediates s)
      then executeTaskInQueue m (immediates s ! n) now
             (s\<lparr> immediates := drop_nth n (immediates s) \<rparr>)
      else s)"
| "q_step m (CallbackSettled n ok now) s =
     (if n < length (executing s)
      then on_callback_settled (executing s ! n) ok now
             (s\<lparr> executing := drop_nth n (executing s) \<rparr>)
      else s)"
| "q_step m (RemovePersisted n) s =
     (if n < length (removing s)
      then executeTaskInQueue_resume (removing s ! n)
             (s\<lparr> removing := drop_nth n (removing s) \<rparr>)
      else s)"

fun q_run :: "mode \<Rightarrow> q_event list \<Rightarrow> q_state \<Rightarrow> q_state" where
  "q_run m [] s = s"
| "q_run m (e # es) s = q_run m es (q_step m e s)"

subsection \<open>Reading the history of one request\<close>


fun started :: "string \<Rightarrow> q_obs list \<Rightarrow> task list" where
  "started k [] = []"
| "started k (Started k' t # tr) = (if k' = k then t # started k tr else started k tr)"
| "started k (_ # tr) = started k tr"

fun finished :: "string \<Rightarrow> q_obs list \<Rightarrow> task list" where
  "finished k [] = []"
| "finished k (Finished k' t # tr) = (if k' = k then t # finished k tr else finished k tr)"
| "finished k (_ # tr) = finished k tr"





subsection \<open>Sample inputs for the task queue\<close>






definition task1 :: task where
  "task1 = \<lparr> task_nodeId = ''node'', callbackFnName = ''processMessage'',
     callbackArgs = [''m1''], onCallbackFinished = Some ReleaseLock,
     onCallbackFinishedArgs = [''m1''], task_startTime = 0 \<rparr>"

definition task2 :: task where
  "task2 = \<lparr> task_nodeId = ''node'', callbackFnName = ''processMessage'',
     callbackArgs = [''m2''], onCallbackFinished = Some ReleaseLock,
     onCallbackFinishedArgs = [''m2''], task_startTime = 1 \<rparr>"


definition late_push :: "q_event list" where
  "late_push =
     [Call_addTaskToQueue ''req-1'' task1, AddPersisted 0, Immediate 0 2, RemovePersisted 0,
      Call_addTaskToQueue ''req-1'' task2, CallbackSettled 0 True 200, AddPersisted 0]"

section \<open>Waiting for the block of a message (src/unnamed/part_000, second file)\<close>

text \<open>
  Module state: \<open>messageProcessLock\<close>; from \<open>tendermint\<close>, \<open>chainId\<close> and
  \<open>latestBlockHeight\<close>; in the cache database, the messages from the message queue and
  the index from block height to message ids. The functions run for one node id. What is
  suspended:
  \<^item> \<open>arrivals\<close>: the activation of \<open>handleMessageFromMqWithBlockWait\<close> of each message
    id, with its suspension point. \<open>AwaitPersist a b\<close>: inside
    \<open>await Promise.all([setMessageFromMQ, addMessageIdToProcessAtBlock])\<close>, where \<open>a\<close> and
    \<open>b\<close> tell which of the two writes has reached the database; \<open>AwaitRemove a b\<close>
    likewise for the two removals;
  \<^item> \<open>awaitingIds\<close>: activations of \<open>processMessageInBlocks\<close> whose
    \<open>getMessageIdsToProcessAtBlock\<close> has not been answered, with their range;
  \<^item> \<open>idsRead\<close>: answers of \<open>getMessageIdsToProcessAtBlock\<close> whose continuation has not
    run;
  \<^item> \<open>items\<close>: the per-message closures of \<open>processMessageInBlocks\<close> awaiting
    \<open>getMessageFromMQ\<close>;
  \<^item> \<open>unfinished\<close>: the tasks handed to \<open>addTaskToQueue\<close> whose completion handler
    has not run;
  \<^item> \<open>cleanupMessage\<close>, \<open>cleanupIndex\<close>: the two removals of \<open>cleanUpMessage\<close> that
    have not reached the database.
  The task queue is seen from outside: \<open>queueCalls\<close> lists the calls of
  \<open>addTaskToQueue\<close>, and a task that finishes runs its completion handler.
  \<open>sweepRanges\<close> is a history variable: the ranges of all calls of
  \<open>processMessageInBlocks\<close>.
\<close>

record message =
  chain_id :: string
  height :: int
  request_id :: string

datatype g_pc =
    AwaitHasSeenChain
  | AwaitPersist bool bool
  | AwaitRemove bool bool
  | Resolved bool
  | Rejected

record arrival =
  ar_message :: message
  ar_pc :: g_pc

record queue_call =
  qc_messageId :: string
  qc_requestId :: string
  qc_handler :: handler

record g_state =
  tm_chainId :: string
  tm_latestBlockHeight :: int
  messageProcessLock :: "string set"
  messageFromMQ :: "string \<rightharpoonup> message"
  processAtBlock :: "(int \<times> string) list"
  arrivals :: "string \<rightharpoonup> arrival"
  sweepRanges :: "(int \<times> int) list"
  awaitingIds :: "(int \<times> int) list"
  idsRead :: "string list list"
  items :: "string list"
  queueCalls :: "queue_call list"
  unfinished :: "queue_call list"
  cleanupMessage :: "string list"
  cleanupIndex :: "string list"

definition g_init :: "string \<Rightarrow> int \<Rightarrow> g_state" where
  "g_init chain h = \<lparr> tm_chainId = chain, tm_latestBlockHeight = h, messageProcessLock = {},
     messageFromMQ = Map.empty, processAtBlock = [], arrivals = Map.empty, sweepRanges = [],
     awaitingIds = [], idsRead = [], items = [], queueCalls = [], unfinished = [],
     cleanupMessage = [], cleanupIndex = [] \<rparr>"

definition set_pc :: "string \<Rightarrow> g_pc \<Rightarrow> g_state \<Rightarrow> g_state" where
  "set_pc messageId p s =
     s\<lparr> arrivals := (case arrivals s messageId of
                        None \<Rightarrow> arrivals s
                      | Some a \<Rightarrow> (arrivals s)(messageId \<mapsto> a\<lparr> ar_pc := p \<rparr>)) \<rparr>"

text \<open>The call of \<open>addTaskToQueue\<close>, as the block gate sees it.\<close>

definition enqueue :: "string \<Rightarrow> message \<Rightarrow> handler \<Rightarrow> g_state \<Rightarrow> g_state" where
  "enqueue messageId message h s =
     (let c = \<lparr> qc_messageId = messageId, qc_requestId = request_id message, qc_handler = h \<rparr>
      in s\<lparr> queueCalls := queueCalls s @ [c], unfinished := unfinished s @ [c] \<rparr>)"

text \<open>\<open>addMqMessageTaskToQueue\<close>: the task releases the lock when it finishes.\<close>

definition addMqMessageTaskToQueue :: "string \<Rightarrow> message \<Rightarrow> g_state \<Rightarrow> g_state" where
  "addMqMessageTaskToQueue messageId message s = enqueue messageId message ReleaseLock s"

text \<open>Modelled from the spec: the caller of \<open>handleMessageFromMqWithBlockWait\<close> is not
  among the sources. "If the observed height already covers the message, admission
  proceeds immediately": when the function returns \<open>true\<close> the caller hands the message
  to the task queue through \<open>addMqMessageTaskToQueue\<close>; when it returns \<open>false\<close> the caller
  does nothing.\<close>

definition return_to_caller :: "string \<Rightarrow> message \<Rightarrow> bool \<Rightarrow> g_state \<Rightarrow> g_state" where
  "return_to_caller messageId message r s =
     (let s1 = set_pc messageId (Resolved r) s
      in if r then addMqMessageTaskToQueue messageId message s1 else s1)"

text \<open>\<open>handleMessageFromMqWithBlockWait\<close> from
  \<open>const latestBlockHeight = tendermint.latestBlockHeight\<close> to its next suspension or
  return.\<close>

definition check_height :: "string \<Rightarrow> message \<Rightarrow> g_state \<Rightarrow> g_state" where
  "check_height messageId message s =
     (if tm_latestBlockHeight s \<le> height message
      then set_pc messageId (AwaitPersist False False)
             (s\<lparr> messageProcessLock := insert messageId (messageProcessLock s) \<rparr>)
      else return_to_caller messageId message True s)"

definition handleMessageFromMqWithBlockWait :: "string \<Rightarrow> message \<Rightarrow> g_state \<Rightarrow> g_state" where
  "handleMessageFromMqWithBlockWait messageId message s =
     (let s1 = s\<lparr> arrivals := (arrivals s)(messageId \<mapsto>
                     \<lparr> ar_message = message, ar_pc = AwaitHasSeenChain \<rparr>) \<rparr>
      in if tm_chainId s \<noteq> chain_id message then s1
         else check_height messageId message s1)"

text \<open>\<open>utils.hasSeenChain\<close> answered.\<close>

definition on_hasSeenChain :: "string \<Rightarrow> message \<Rightarrow> bool \<Rightarrow> g_state \<Rightarrow> g_state" where
  "on_hasSeenChain messageId message seen s =
     (if \<not> seen then set_pc messageId Rejected s
      else check_height messageId message s)"

text \<open>After \<open>await Promise.all([...set...])\<close>: the second look at
  \<open>tendermint.latestBlockHeight\<close>.\<close>

definition on_persisted :: "string \<Rightarrow> message \<Rightarrow> g_state \<Rightarrow> g_state" where
  "on_persisted messageId message s =
     (if tm_latestBlockHeight s \<le> height message
      then return_to_caller messageId message False
             (s\<lparr> messageProcessLock := messageProcessLock s - {messageId} \<rparr>)
      else set_pc messageId (AwaitRemove False False) s)"

definition removeMessageFromMQ :: "string \<Rightarrow> g_state \<Rightarrow> g_state" where
  "removeMessageFromMQ messageId s = s\<lparr> messageFromMQ := (messageFromMQ s)(messageId := None) \<rparr>"

definition removeMessageIdToProcessAtBlock :: "string \<Rightarrow> g_state \<Rightarrow> g_state" where
  "removeMessageIdToProcessAtBlock messageId s =
     s\<lparr> processAtBlock := filter (\<lambda>e. snd e \<noteq> messageId) (processAtBlock s) \<rparr>"

definition getMessageIdsToProcessAtBlock :: "int \<Rightarrow> int \<Rightarrow> g_state \<Rightarrow> string list" where
  "getMessageIdsToProcessAtBlock fromHeight toHeight s =
     map snd (filter (\<lambda>e. fromHeight \<le> fst e \<and> fst e \<le> toHeight) (processAtBlock s))"

text \<open>\<open>processMessageInBlocks\<close> after the ids were read: each closure of
  \<open>messageIds.map\<close> runs up to its \<open>await cacheDb.getMessageFromMQ\<close>, unless the message
  is locked.\<close>

definition processMessageInBlocks_resume :: "string list \<Rightarrow> g_state \<Rightarrow> g_state" where
  "processMessageInBlocks_resume messageIds s =
     s\<lparr> items := items s @ filter (\<lambda>i. i \<notin> messageProcessLock s) messageIds \<rparr>"

text \<open>One closure after \<open>getMessageFromMQ\<close>: \<open>if (message == null) return\<close>, else the task
  is added with \<open>releaseLockAndCleanUp\<close> as its completion handler. The database is read
  when the closure resumes.\<close>

definition process_item :: "string \<Rightarrow> g_state \<Rightarrow> g_state" where
  "process_item messageId s =
     (case messageFromMQ s messageId of
        None \<Rightarrow> s
      | Some message \<Rightarrow> enqueue messageId message ReleaseLockAndCleanUp s)"

definition releaseLock :: "string \<Rightarrow> g_state \<Rightarrow> g_state" where
  "releaseLock messageId s = s\<lparr> messageProcessLock := messageProcessLock s - {messageId} \<rparr>"

text \<open>\<open>cleanUpMessage\<close> starts both removals and is not awaited.\<close>

definition cleanUpMessage :: "string \<Rightarrow> g_state \<Rightarrow> g_state" where
  "cleanUpMessage messageId s =
     s\<lparr> cleanupMessage := cleanupMessage s @ [messageId],
        cleanupIndex := cleanupIndex s @ [messageId] \<rparr>"

definition releaseLockAndCleanUp :: "string \<Rightarrow> g_state \<Rightarrow> g_state" where
  "releaseLockAndCleanUp messageId s = cleanUpMessage messageId (releaseLock messageId s)"

definition run_handler :: "queue_call \<Rightarrow> g_state \<Rightarrow> g_state" where
  "run_handler c s =
     (case qc_handler c of
        ReleaseLock \<Rightarrow> releaseLock (qc_messageId c) s
      | ReleaseLockAndCleanUp \<Rightarrow> releaseLockAndCleanUp (qc_messageId c) s)"

text \<open>Modelled from the spec: the caller of \<open>processMessageInBlocks\<close> is not among the
  sources. The sweep is "invoked whenever the node's observed height advances to cover a
  new range": when the observed height goes from \<open>old\<close> to \<open>new\<close>, the heights that
  \<open>handleMessageFromMqWithBlockWait\<close> stops holding back (\<open>latestBlockHeight <= height\<close>)
  are \<open>old\<close> to \<open>new - 1\<close>.\<close>

definition new_block :: "int \<Rightarrow> g_state \<Rightarrow> g_state" where
  "new_block new s =
     (if tm_latestBlockHeight s < new
      then s\<lparr> tm_latestBlockHeight := new,
              sweepRanges := sweepRanges s @ [(tm_latestBlockHeight s, new - 1)],
              awaitingIds := awaitingIds s @ [(tm_latestBlockHeight s, new - 1)] \<rparr>
      else s)"

datatype g_event =
    MessageArrives string message
  | HasSeenChainSettled string bool
  | DbSetMessage string
  | DbAddIndex string
  | PersistSettled string
  | DbRemoveMessage string
  | DbRemoveIndex string
  | RemoveSettled string
  | NewBlock int
  | IdsAnswered nat
  | IdsSettled nat
  | ItemSettled nat
  | TaskFinished nat
  | CleanupMessageDone nat
  | CleanupIndexDone nat

text \<open>\<open>arrivals\<close> follows one activation of \<open>handleMessageFromMqWithBlockWait\<close> for each
  message id: the latest. Where an id arrives again, the function runs again, and an
  earlier activation for that id that is still suspended is followed no further.\<close>

fun g_step :: "g_event \<Rightarrow> g_state \<Rightarrow> g_state" where
  "g_step (MessageArrives messageId message) s =
     handleMessageFromMqWithBlockWait messageId message s"
| "g_step (HasSeenChainSettled messageId seen) s =
     (case arrivals s messageId of
        Some a \<Rightarrow> (case ar_pc a of
                     AwaitHasSeenChain \<Rightarrow> on_hasSeenChain messageId (ar_message a) seen s
                   | _ \<Rightarrow> s)
      | None \<Rightarrow> s)"
| "g_step (DbSetMessage messageId) s =
     (case arrivals s messageId of
        Some a \<Rightarrow> (case ar_pc a of
                     AwaitPersist False b \<Rightarrow>
                       set_pc messageId (AwaitPersist True b)
                         (s\<lparr> messageFromMQ := (messageFromMQ s)(messageId \<mapsto> ar_message a) \<rparr>)
                   | _ \<Rightarrow> s)
      | None \<Rightarrow> s)"
| "g_step (DbAddIndex messageId) s =
     (case arrivals s messageId of
        Some a \<Rightarrow> (case ar_pc a of
                     AwaitPersist b False \<Rightarrow>
                       set_pc messageId (AwaitPersist b True)
                         (s\<lparr> processAtBlock := processAtBlock s @
                                [(height (ar_message a), messageId)] \<rparr>)
                   | _ \<Rightarrow> s)
      | None \<Rightarrow> s)"
| "g_step (PersistSettled messageId) s =
     (case arrivals s messageId of
        Some a \<Rightarrow> (case ar_pc a of
                     AwaitPersist True True \<Rightarrow> on_persisted messageId (ar_message a) s
                   | _ \<Rightarrow> s)
      | None \<Rightarrow> s)"
| "g_step (DbRemoveMessage messageId) s =
     (case arrivals s messageId of
        Some a \<Rightarrow> (case ar_pc a of
                     AwaitRemove False b \<Rightarrow>
                       set_pc messageId (AwaitRemove True b) (removeMessageFromMQ messageId s)
                   | _ \<Rightarrow> s)
      | None \<Rightarrow> s)"
| "g_step (DbRemoveIndex messageId) s =
     (case arrivals s messageId of
        Some a \<Rightarrow> (case ar_pc a of
                     AwaitRemove b False \<Rightarrow>
                       set_pc messageId (AwaitRemove b True)
                         (removeMessageIdToProcessAtBlock messageId s)
                   | _ \<Rightarrow> s)
      | None \<Rightarrow> s)"
| "g_step (RemoveSettled messageId) s =
     (case arrivals s messageId of
        Some a \<Rightarrow> (case ar_pc a of
                     AwaitRemove True True \<Rightarrow> return_to_caller messageId (ar_message a) True s
                   | _ \<Rightarrow> s)
      | None \<Rightarrow> s)"
| "g_step (NewBlock new) s = new_block new s"
| "g_step (IdsAnswered n) s =
     (if n < length (awaitingIds s)
      then s\<lparr> awaitingIds := drop_nth n (awaitingIds s),
              idsRead := idsRead s @
                [getMessageIdsToProcessAtBlock (fst (awaitingIds s ! n)) (snd (awaitingIds s ! n)) s] \<rparr>
      else s)"
| "g_step (IdsSettled n) s =
     (if n < length (idsRead s)
      then processMessageInBlocks_resume (idsRead s ! n) (s\<lparr> idsRead := drop_nth n (idsRead s) \<rparr>)
      else s)"
| "g_step (ItemSettled n) s =
     (if n < length (items s)
      then process_item (items s ! n) (s\<lparr> items := drop_nth n (items s) \<rparr>)
      else s)"
| "g_step (TaskFinished n) s =
     (if n < length (unfinished s)
      then run_handler (unfinished s ! n) (s\<lparr> unfinished := drop_nth n (unfinished s) \<rparr>)
      else s)"
| "g_step (CleanupMessageDone n) s =
     (if n < length (cleanupMessage s)
      then removeMessageFromMQ (cleanupMessage s ! n)
             (s\<lparr> cleanupMessage := drop_nth n (cleanupMessage s) \<rparr>)
      else s)"
| "g_step (CleanupIndexDone n) s =
     (if n < length (cleanupIndex s)
      then removeMessageIdToProcessAtBlock (cleanupIndex s ! n)
             (s\<lparr> cleanupIndex := drop_nth n (cleanupIndex s) \<rparr>)
      else s)"

fun g_run :: "g_event list \<Rightarrow> g_state \<Rightarrow> g_state" where
  "g_run [] s = s"
| "g_run (e # es) s = g_run es (g_step e s)"

text \<open>The message ids that arrive in a run, in order.\<close>

fun arrived :: "g_event list \<Rightarrow> string list" where
  "arrived [] = []"
| "arrived (MessageArrives messageId message # es) = messageId # arrived es"
| "arrived (e # es) = arrived es"

text \<open>Everything begun comes to its end. \<open>arrival_events m\<close>: the chain of message \<open>m\<close> is
  found to have been seen, its writes and removals reach the database, and its
  activation resumes at each \<open>await\<close> (an event that does not fit where the activation
  stands is no step). \<open>finish_sweeps\<close>: every sweep begun reads its ids, resumes, and each
  of its closures resumes. \<open>settle\<close>: both, with a block above height \<open>h\<close> in between.\<close>

definition arrival_events :: "string \<Rightarrow> g_event list" where
  "arrival_events m =
     [HasSeenChainSettled m True, DbSetMessage m, DbAddIndex m, PersistSettled m,
      DbRemoveMessage m, DbRemoveIndex m, RemoveSettled m]"

text \<open>Where an activation stands once it has been through the first \<open>k\<close> events of
  \<open>arrival_events\<close>, when its chain is recognized.\<close>

fun stage :: "nat \<Rightarrow> g_pc \<Rightarrow> bool" where
  "stage k (Resolved r) = True"
| "stage k Rejected = False"
| "stage k AwaitHasSeenChain = (k = 0)"
| "stage k (AwaitPersist w1 w2) = (k \<le> 1 \<or> (k = 2 \<and> w1) \<or> (k = 3 \<and> w1 \<and> w2))"
| "stage k (AwaitRemove r1 r2) = (k \<le> 4 \<or> (k = 5 \<and> r1) \<or> (k = 6 \<and> r1 \<and> r2))"

definition finish_sweeps :: "g_state \<Rightarrow> g_state" where
  "finish_sweeps s =
     (let s1 = g_run (replicate (length (awaitingIds s)) (IdsAnswered 0)) s;
          s2 = g_run (replicate (length (idsRead s1)) (IdsSettled 0)) s1
      in g_run (replicate (length (items s2)) (ItemSettled 0)) s2)"

definition settle :: "string \<Rightarrow> int \<Rightarrow> g_state \<Rightarrow> g_state" where
  "settle m h s = finish_sweeps (g_step (NewBlock (h + 1)) (g_run (arrival_events m) s))"

subsection \<open>Counting what concerns one message\<close>

definition occ :: "('a \<Rightarrow> bool) \<Rightarrow> 'a list \<Rightarrow> nat" where
  "occ P xs = length (filter P xs)"

text \<open>The calls of \<open>addTaskToQueue\<close> for one message: all of them, those of the arrival
  path and those of the sweep.\<close>

definition admissions :: "string \<Rightarrow> g_state \<Rightarrow> nat" where
  "admissions m s = occ (\<lambda>c. qc_messageId c = m) (queueCalls s)"

definition direct_adm :: "string \<Rightarrow> g_state \<Rightarrow> nat" where
  "direct_adm m s = occ (\<lambda>c. qc_messageId c = m \<and> qc_handler c = ReleaseLock) (queueCalls s)"

definition sweep_adm :: "string \<Rightarrow> g_state \<Rightarrow> nat" where
  "sweep_adm m s =
     occ (\<lambda>c. qc_messageId c = m \<and> qc_handler c = ReleaseLockAndCleanUp) (queueCalls s)"

definition covers :: "int \<Rightarrow> int \<times> int \<Rightarrow> bool" where
  "covers h r = (fst r \<le> h \<and> h \<le> snd r)"

text \<open>What of the sweep is still on its way to message \<open>m\<close> of height \<open>h\<close>, or has
  arrived: ranges covering \<open>h\<close> not yet read, answers containing \<open>m\<close>, closures for
  \<open>m\<close>, and tasks added for \<open>m\<close>.\<close>

definition in_sweep :: "string \<Rightarrow> int \<Rightarrow> g_state \<Rightarrow> nat" where
  "in_sweep m h s =
     occ (covers h) (awaitingIds s) + sum_list (map (occ (\<lambda>i. i = m)) (idsRead s))
       + occ (\<lambda>i. i = m) (items s) + sweep_adm m s"

text \<open>Nothing is in flight for message \<open>m\<close> and for the sweeps.\<close>

definition quiet :: "string \<Rightarrow> g_state \<Rightarrow> bool" where
  "quiet m s \<longleftrightarrow>
     (case arrivals s m of None \<Rightarrow> False
      | Some a \<Rightarrow> (case ar_pc a of Resolved r \<Rightarrow> True | _ \<Rightarrow> False)) \<and>
     awaitingIds s = [] \<and> idsRead s = [] \<and> items s = []"

subsection \<open>The invariant of the block gate\<close>

text \<open>The index entries of message \<open>m\<close>, the ids of \<open>m\<close> in the answers read by the
  sweeps, and the closures of the sweeps for \<open>m\<close>.\<close>

definition mine :: "string \<Rightarrow> g_state \<Rightarrow> (int \<times> string) list" where
  "mine m s = filter (\<lambda>e. snd e = m) (processAtBlock s)"

definition snapc :: "string \<Rightarrow> g_state \<Rightarrow> nat" where
  "snapc m s = sum_list (map (occ (\<lambda>i. i = m)) (idsRead s))"

definition itemc :: "string \<Rightarrow> g_state \<Rightarrow> nat" where
  "itemc m s = occ (\<lambda>i. i = m) (items s)"

text \<open>The sweeps: every range lies below the observed height, no height is covered by
  two ranges, a range is read at most once, and every task still to finish has been
  added.\<close>

definition env_inv :: "g_state \<Rightarrow> bool" where
  "env_inv s \<longleftrightarrow>
     (\<forall>r \<in> set (sweepRanges s). snd r < tm_latestBlockHeight s) \<and>
     (\<forall>x. occ (covers x) (sweepRanges s) \<le> 1) \<and>
     (\<forall>x. occ (covers x) (awaitingIds s) \<le> occ (covers x) (sweepRanges s)) \<and>
     set (unfinished s) \<subseteq> set (queueCalls s)"

text \<open>Nothing is held for message \<open>m\<close>.\<close>

definition pristine :: "string \<Rightarrow> g_state \<Rightarrow> bool" where
  "pristine m s \<longleftrightarrow>
     m \<notin> messageProcessLock s \<and> messageFromMQ s m = None \<and> mine m s = [] \<and>
     snapc m s = 0 \<and> itemc m s = 0 \<and> admissions m s = 0 \<and>
     m \<notin> set (cleanupMessage s) \<and> m \<notin> set (cleanupIndex s)"

text \<open>What holds of an arrived message at every point of its arrival: its index entries
  are at its own height, there is at most one, no more of the sweep is on its way to it
  than ranges cover its height, and it is cleaned up only after the sweep added it.\<close>

definition common :: "string \<Rightarrow> message \<Rightarrow> g_state \<Rightarrow> bool" where
  "common m msg s \<longleftrightarrow>
     (\<forall>e \<in> set (mine m s). fst e = height msg) \<and>
     length (mine m s) \<le> 1 \<and>
     in_sweep m (height msg) s \<le> occ (covers (height msg)) (sweepRanges s) \<and>
     (m \<in> set (cleanupMessage s) \<or> m \<in> set (cleanupIndex s) \<longrightarrow> 1 \<le> sweep_adm m s)"

text \<open>What holds of an arrived message at each point of
  \<open>handleMessageFromMqWithBlockWait\<close>.\<close>

fun phase :: "string \<Rightarrow> message \<Rightarrow> g_pc \<Rightarrow> g_state \<Rightarrow> bool" where
  "phase m msg AwaitHasSeenChain s = pristine m s"
| "phase m msg Rejected s = pristine m s"
| "phase m msg (AwaitPersist w1 w2) s =
     (m \<in> messageProcessLock s \<and> messageFromMQ s m = (if w1 then Some msg else None) \<and>
      length (mine m s) = (if w2 then 1 else 0) \<and> itemc m s = 0 \<and> admissions m s = 0)"
| "phase m msg (AwaitRemove r1 r2) s =
     (m \<in> messageProcessLock s \<and> messageFromMQ s m = (if r1 then None else Some msg) \<and>
      itemc m s = 0 \<and> admissions m s = 0 \<and> height msg < tm_latestBlockHeight s)"
| "phase m msg (Resolved True) s =
     (messageFromMQ s m = None \<and> direct_adm m s = 1 \<and> sweep_adm m s = 0 \<and>
      height msg < tm_latestBlockHeight s)"
| "phase m msg (Resolved False) s =
     (m \<notin> messageProcessLock s \<and> direct_adm m s = 0 \<and>
      (sweep_adm m s = 0 \<longrightarrow> messageFromMQ s m = Some msg \<and> length (mine m s) = 1) \<and>
      (height msg < tm_latestBlockHeight s \<longrightarrow> in_sweep m (height msg) s = 1))"

text \<open>The invariant of one message, and of the block gate.\<close>

definition msg_inv :: "string \<Rightarrow> g_state \<Rightarrow> bool" where
  "msg_inv m s \<longleftrightarrow>
     (case arrivals s m of
        None \<Rightarrow> pristine m s
      | Some a \<Rightarrow> common m (ar_message a) s \<and> phase m (ar_message a) (ar_pc a) s)"

definition g_inv :: "string \<Rightarrow> g_state \<Rightarrow> bool" where
  "g_inv m s \<longleftrightarrow> env_inv s \<and> msg_inv m s"

subsection \<open>Sample inputs for the block gate\<close>

text \<open>The events by which a message of a recognized chain gets to the comparison of
  heights: directly, or after \<open>hasSeenChain\<close> answered \<open>true\<close>.\<close>

definition recognized_arrival :: "string \<Rightarrow> message \<Rightarrow> g_state \<Rightarrow> g_event list" where
  "recognized_arrival m msg s =
     (if tm_chainId s = chain_id msg then [MessageArrives m msg]
      else [MessageArrives m msg, HasSeenChainSettled m True])"

definition msg_example :: message where
  "msg_example = \<lparr> chain_id = ''chain'', height = 100, request_id = ''req-1'' \<rparr>"

definition deferred_example :: g_state where
  "deferred_example = g_run
     [MessageArrives ''m1'' msg_example, DbSetMessage ''m1'', DbAddIndex ''m1'',
      PersistSettled ''m1'']
     (g_init ''chain'' 100)"

definition late_msg_example :: message where
  "late_msg_example = \<lparr> chain_id = ''chain'', height = 105, request_id = ''req-1'' \<rparr>"

text \<open>A message deferred at its arrival; the same admitted by the sweep of the next
  block; and one whose arrival is still persisting when the next block comes.\<close>

definition deferral_run :: "g_event list" where
  "deferral_run =
     [MessageArrives ''m1'' late_msg_example, DbSetMessage ''m1'', DbAddIndex ''m1'',
      PersistSettled ''m1'']"

definition sweep_run :: "g_event list" where
  "sweep_run =
     [MessageArrives ''m1'' late_msg_example, DbSetMessage ''m1'', DbAddIndex ''m1'',
      PersistSettled ''m1'', NewBlock 106, IdsAnswered 0, IdsSettled 0, ItemSettled 0]"

definition race_run :: "g_event list" where
  "race_run =
     [MessageArrives ''m1'' late_msg_example, DbSetMessage ''m1'', DbAddIndex ''m1'',
      NewBlock 106, IdsAnswered 0, IdsSettled 0, PersistSettled ''m1'',
      DbRemoveMessage ''m1'', DbRemoveIndex ''m1'', RemoveSettled ''m1'']"

text \<open>The same deferred message when the observed height comes to equal its height, and
  when its id arrives a second time after the next block.\<close>

definition covered_example :: g_state where
  "covered_example = g_run
     [MessageArrives ''m1'' late_msg_example, DbSetMessage ''m1'', DbAddIndex ''m1'',
      PersistSettled ''m1'', NewBlock 105, IdsAnswered 0, IdsSettled 0]
     (g_init ''chain'' 100)"

definition redelivered_example :: g_state where
  "redelivered_example = g_run
     [MessageArrives ''m1'' late_msg_example, DbSetMessage ''m1'', DbAddIndex ''m1'',
      PersistSettled ''m1'', NewBlock 106, MessageArrives ''m1'' late_msg_example,
      IdsAnswered 0, IdsSettled 0, ItemSettled 0]
     (g_init ''chain'' 100)"

section \<open>Properties of the callback module\<close>

lemma set_at_fields [simp]:
  "stopCallbackRetry (set_at t p s) = stopCallbackRetry s"
  "pendingCallbacksCount (set_at t p s) = pendingCallbacksCount s"
  "pendingCallback (set_at t p s) = pendingCallback s"
  "waitPromises (set_at t p s) = waitPromises s"
  "callbackWithRetryData (set_at t p s) = callbackWithRetryData s"
  "emitted (set_at t p s) = emitted s"
  "responseCallbackCalls (set_at t p s) = responseCallbackCalls s"
  "responseCallbackThrows (set_at t p s) = responseCallbackThrows s"
  "httpPosts (set_at t p s) = httpPosts s"
  "activations (set_at t p s) = (activations s)[t := (activations s ! t)\<lparr> at := p \<rparr>]"
  by (simp_all add: set_at_def)

lemma decrement_fields [simp]:
  "stopCallbackRetry (decrementPendingCallbacksCount s) = stopCallbackRetry s"
  "pendingCallbacksCount (decrementPendingCallbacksCount s) = pendingCallbacksCount s - 1"
  "pendingCallback (decrementPendingCallbacksCount s) = pendingCallback s"
  "waitPromises (decrementPendingCallbacksCount s) = waitPromises s"
  "callbackWithRetryData (decrementPendingCallbacksCount s) = callbackWithRetryData s"
  "emitted (decrementPendingCallbacksCount s)
     = emitted s @ [PendingCallbacksCount (pendingCallbacksCount s - 1)]"
  "responseCallbackCalls (decrementPendingCallbacksCount s) = responseCallbackCalls s"
  "responseCallbackThrows (decrementPendingCallbacksCount s) = responseCallbackThrows s"
  "httpPosts (decrementPendingCallbacksCount s) = httpPosts s"
  "activations (decrementPendingCallbacksCount s) = activations s"
  by (simp_all add: decrementPendingCallbacksCount_def)

lemma increment_fields [simp]:
  "stopCallbackRetry (incrementPendingCallbacksCount s) = stopCallbackRetry s"
  "pendingCallbacksCount (incrementPendingCallbacksCount s) = pendingCallbacksCount s + 1"
  "pendingCallback (incrementPendingCallbacksCount s) = pendingCallback s"
  "waitPromises (incrementPendingCallbacksCount s) = waitPromises s"
  "callbackWithRetryData (incrementPendingCallbacksCount s) = callbackWithRetryData s"
  "emitted (incrementPendingCallbacksCount s)
     = emitted s @ [PendingCallbacksCount (pendingCallbacksCount s + 1)]"
  "responseCallbackCalls (incrementPendingCallbacksCount s) = responseCallbackCalls s"
  "responseCallbackThrows (incrementPendingCallbacksCount s) = responseCallbackThrows s"
  "httpPosts (incrementPendingCallbacksCount s) = httpPosts s"
  "activations (incrementPendingCallbacksCount s) = activations s"
  by (simp_all add: incrementPendingCallbacksCount_def)

lemma emit_fields [simp]:
  "stopCallbackRetry (emit m s) = stopCallbackRetry s"
  "pendingCallbacksCount (emit m s) = pendingCallbacksCount s"
  "pendingCallback (emit m s) = pendingCallback s"
  "waitPromises (emit m s) = waitPromises s"
  "callbackWithRetryData (emit m s) = callbackWithRetryData s"
  "emitted (emit m s) = emitted s @ [m]"
  "responseCallbackCalls (emit m s) = responseCallbackCalls s"
  "responseCallbackThrows (emit m s) = responseCallbackThrows s"
  "httpPosts (emit m s) = httpPosts s"
  "activations (emit m s) = activations s"
  by (simp_all add: emit_def)

lemma remove_fields [simp]:
  "stopCallbackRetry (removeCallbackWithRetryData c s) = stopCallbackRetry s"
  "pendingCallbacksCount (removeCallbackWithRetryData c s) = pendingCallbacksCount s"
  "pendingCallback (removeCallbackWithRetryData c s) = pendingCallback s"
  "waitPromises (removeCallbackWithRetryData c s) = waitPromises s"
  "callbackWithRetryData (removeCallbackWithRetryData c s) = (callbackWithRetryData s)(c := None)"
  "emitted (removeCallbackWithRetryData c s) = emitted s"
  "responseCallbackCalls (removeCallbackWithRetryData c s) = responseCallbackCalls s"
  "responseCallbackThrows (removeCallbackWithRetryData c s) = responseCallbackThrows s"
  "httpPosts (removeCallbackWithRetryData c s) = httpPosts s"
  "activations (removeCallbackWithRetryData c s) = activations s"
  by (simp_all add: removeCallbackWithRetryData_def)

lemma response_fields [simp]:
  "stopCallbackRetry (call_response_callback t a r s) = stopCallbackRetry s"
  "pendingCallbacksCount (call_response_callback t a r s) = pendingCallbacksCount s"
  "pendingCallback (call_response_callback t a r s) = pendingCallback s"
  "waitPromises (call_response_callback t a r s) = waitPromises s"
  "callbackWithRetryData (call_response_callback t a r s) = callbackWithRetryData s"
  "emitted (call_response_callback t a r s) = emitted s"
  "responseCallbackCalls (call_response_callback t a r s) = responseCallbackCalls s @
     (if truthy_string (responseCallbackFnName a)
      then [(t, the (responseCallbackFnName a), r, dataForResponseCallback a)] else [])"
  "responseCallbackThrows (call_response_callback t a r s) = responseCallbackThrows s"
  "httpPosts (call_response_callback t a r s) = httpPosts s"
  "activations (call_response_callback t a r s) = activations s"
  by (simp_all add: call_response_callback_def truthy_string_def split: option.splits)

lemma loop_head_fields [simp]:
  "stopCallbackRetry (loop_head t s) = stopCallbackRetry s"
  "pendingCallbacksCount (loop_head t s) = pendingCallbacksCount s"
  "pendingCallback (loop_head t s) = pendingCallback s"
  "waitPromises (loop_head t s) = waitPromises s"
  "callbackWithRetryData (loop_head t s) = callbackWithRetryData s"
  "emitted (loop_head t s) = emitted s"
  "responseCallbackCalls (loop_head t s) = responseCallbackCalls s"
  "responseCallbackThrows (loop_head t s) = responseCallbackThrows s"
  "httpPosts (loop_head t s) = (if stopCallbackRetry s then httpPosts s else httpPosts s @ [t])"
  "activations (loop_head t s) = (activations s)[t := (activations s ! t)
      \<lparr> at := (if stopCallbackRetry s then Returned Halted else AwaitHttpPost) \<rparr>]"
  by (simp_all add: loop_head_def)

lemma start_wait_fields [simp]:
  "stopCallbackRetry (start_wait t n s) = stopCallbackRetry s"
  "pendingCallbacksCount (start_wait t n s) = pendingCallbacksCount s"
  "pendingCallback (start_wait t n s) = pendingCallback s"
  "waitPromises (start_wait t n s) = waitPromises s @ [t]"
  "callbackWithRetryData (start_wait t n s) = callbackWithRetryData s"
  "emitted (start_wait t n s) = emitted s"
  "responseCallbackCalls (start_wait t n s) = responseCallbackCalls s"
  "responseCallbackThrows (start_wait t n s) = responseCallbackThrows s"
  "httpPosts (start_wait t n s) = httpPosts s"
  "activations (start_wait t n s) = (activations s)[t := (activations s ! t)\<lparr> at := AwaitWait n False \<rparr>]"
  by (simp_all add: start_wait_def)

lemma stop_wait_fields [simp]:
  "stopCallbackRetry (stop_wait t s) = stopCallbackRetry s"
  "pendingCallbacksCount (stop_wait t s) = pendingCallbacksCount s"
  "pendingCallback (stop_wait t s) = pendingCallback s"
  "waitPromises (stop_wait t s) = waitPromises s"
  "callbackWithRetryData (stop_wait t s) = callbackWithRetryData s"
  "emitted (stop_wait t s) = emitted s"
  "responseCallbackCalls (stop_wait t s) = responseCallbackCalls s"
  "responseCallbackThrows (stop_wait t s) = responseCallbackThrows s"
  "httpPosts (stop_wait t s) = httpPosts s"
  "length (activations (stop_wait t s)) = length (activations s)"
  by (simp_all add: stop_wait_def split: pc.splits)

lemma foldr_stop_wait_fields [simp]:
  "stopCallbackRetry (foldr stop_wait ws s) = stopCallbackRetry s"
  "pendingCallbacksCount (foldr stop_wait ws s) = pendingCallbacksCount s"
  "pendingCallback (foldr stop_wait ws s) = pendingCallback s"
  "waitPromises (foldr stop_wait ws s) = waitPromises s"
  "callbackWithRetryData (foldr stop_wait ws s) = callbackWithRetryData s"
  "emitted (foldr stop_wait ws s) = emitted s"
  "responseCallbackCalls (foldr stop_wait ws s) = responseCallbackCalls s"
  "responseCallbackThrows (foldr stop_wait ws s) = responseCallbackThrows s"
  "httpPosts (foldr stop_wait ws s) = httpPosts s"
  "length (activations (foldr stop_wait ws s)) = length (activations s)"
  by (induction ws) simp_all

lemma stop_wait_nth:
  "t < length (activations s) \<Longrightarrow>
   activations (stop_wait u s) ! t =
     (activations s ! t)\<lparr> at := stopped_pc (t = u) (at (activations s ! t)) \<rparr>"
  by (cases "t = u"; cases "at (activations s ! t)")
     (auto simp: stop_wait_def nth_list_update split: pc.splits)

lemma foldr_stop_wait_nth:
  "t < length (activations s) \<Longrightarrow>
   activations (foldr stop_wait ws s) ! t =
     (activations s ! t)\<lparr> at := stopped_pc (t \<in> set ws) (at (activations s ! t)) \<rparr>"
proof (induction ws)
  case Nil
  then show ?case by (cases "at (activations s ! t)") simp_all
next
  case (Cons u ws)
  then show ?case
    by (cases "at (activations s ! t)") (auto simp: stop_wait_nth intro!: arg_cong [where f = "\<lambda>b. _ \<lparr>at := AwaitWait _ b\<rparr>"])
qed

lemma throw_fields [simp]:
  "stopCallbackRetry (throw_response_callback t a r s) = stopCallbackRetry s"
  "pendingCallbacksCount (throw_response_callback t a r s) = pendingCallbacksCount s"
  "pendingCallback (throw_response_callback t a r s) = pendingCallback s"
  "waitPromises (throw_response_callback t a r s) = waitPromises s"
  "callbackWithRetryData (throw_response_callback t a r s) = callbackWithRetryData s"
  "emitted (throw_response_callback t a r s) = emitted s"
  "responseCallbackCalls (throw_response_callback t a r s) = responseCallbackCalls s"
  "httpPosts (throw_response_callback t a r s) = httpPosts s"
  "activations (throw_response_callback t a r s) = activations s"
  by (simp_all add: throw_response_callback_def)

lemma wait_settled_fields [simp]:
  "stopCallbackRetry (on_wait_settled t s) = stopCallbackRetry s"
  "pendingCallbacksCount (on_wait_settled t s) = pendingCallbacksCount s"
  "pendingCallback (on_wait_settled t s) = pendingCallback s"
  "waitPromises (on_wait_settled t s) = splice_out t (waitPromises s)"
  "callbackWithRetryData (on_wait_settled t s) = callbackWithRetryData s"
  "emitted (on_wait_settled t s) = emitted s"
  "responseCallbackCalls (on_wait_settled t s) = responseCallbackCalls s"
  "responseCallbackThrows (on_wait_settled t s) = responseCallbackThrows s"
  "httpPosts (on_wait_settled t s) = (if stopCallbackRetry s then httpPosts s else httpPosts s @ [t])"
  "activations (on_wait_settled t s) = (activations s)[t := (activations s ! t)
      \<lparr> at := (if stopCallbackRetry s then Returned Halted else AwaitHttpPost) \<rparr>]"
  by (simp_all add: on_wait_settled_def)

lemma resume_stopped_fields [simp]:
  "stopCallbackRetry (resume_stopped t s) = stopCallbackRetry s"
  "pendingCallbacksCount (resume_stopped t s) = pendingCallbacksCount s"
  "pendingCallback (resume_stopped t s) = pendingCallback s"
  "callbackWithRetryData (resume_stopped t s) = callbackWithRetryData s"
  "emitted (resume_stopped t s) = emitted s"
  "responseCallbackCalls (resume_stopped t s) = responseCallbackCalls s"
  "responseCallbackThrows (resume_stopped t s) = responseCallbackThrows s"
  "length (activations (resume_stopped t s)) = length (activations s)"
  by (simp_all add: resume_stopped_def split: option.split pc.split)

lemma resume_stopped_posts:
  "stopCallbackRetry s \<Longrightarrow> httpPosts (resume_stopped t s) = httpPosts s"
  by (simp add: resume_stopped_def split: option.split pc.split)

lemma resume_stopped_nth:
  "stopCallbackRetry s \<Longrightarrow> t < length (activations s) \<Longrightarrow>
   activations (resume_stopped u s) ! t =
     (activations s ! t)\<lparr> at := resumed_pc (t = u) (at (activations s ! t)) \<rparr>"
  by (cases "t = u"; cases "at (activations s ! t)")
     (auto simp: resume_stopped_def suspended_at_def nth_list_update split: option.split pc.split)

lemma resume_all_fields [simp]:
  "stopCallbackRetry (resume_all_stopped ws s) = stopCallbackRetry s"
  "pendingCallbacksCount (resume_all_stopped ws s) = pendingCallbacksCount s"
  "pendingCallback (resume_all_stopped ws s) = pendingCallback s"
  "callbackWithRetryData (resume_all_stopped ws s) = callbackWithRetryData s"
  "emitted (resume_all_stopped ws s) = emitted s"
  "responseCallbackCalls (resume_all_stopped ws s) = responseCallbackCalls s"
  "responseCallbackThrows (resume_all_stopped ws s) = responseCallbackThrows s"
  "length (activations (resume_all_stopped ws s)) = length (activations s)"
  unfolding resume_all_stopped_def by (induction ws arbitrary: s) simp_all

lemma resume_all_posts:
  "stopCallbackRetry s \<Longrightarrow> httpPosts (resume_all_stopped ws s) = httpPosts s"
  unfolding resume_all_stopped_def
  by (induction ws arbitrary: s) (simp_all add: resume_stopped_posts)

lemma resumed_pc_twice: "resumed_pc c (resumed_pc d p) = resumed_pc (d \<or> c) p"
  by (cases p) auto

lemma resume_all_nth:
  "stopCallbackRetry s \<Longrightarrow> t < length (activations s) \<Longrightarrow>
   activations (resume_all_stopped ws s) ! t =
     (activations s ! t)\<lparr> at := resumed_pc (t \<in> set ws) (at (activations s ! t)) \<rparr>"
  unfolding resume_all_stopped_def
proof (induction ws arbitrary: s)
  case Nil
  then show ?case by (cases "at (activations s ! t)") simp_all
next
  case (Cons u ws)
  from Cons.prems have "stopCallbackRetry (resume_stopped u s)"
    "t < length (activations (resume_stopped u s))"
    by simp_all
  from Cons.IH [OF this] Cons.prems show ?case
    by (simp add: resume_stopped_nth resumed_pc_twice disj_commute)
qed

lemma stop_fields [simp]:
  "stopCallbackRetry (stopAllCallbackRetries s)"
  "pendingCallbacksCount (stopAllCallbackRetries s) = pendingCallbacksCount s"
  "pendingCallback (stopAllCallbackRetries s) = pendingCallback s"
  "waitPromises (stopAllCallbackRetries s) = waitPromises s"
  "callbackWithRetryData (stopAllCallbackRetries s) = callbackWithRetryData s"
  "emitted (stopAllCallbackRetries s) = emitted s"
  "responseCallbackCalls (stopAllCallbackRetries s) = responseCallbackCalls s"
  "responseCallbackThrows (stopAllCallbackRetries s) = responseCallbackThrows s"
  "httpPosts (stopAllCallbackRetries s) = httpPosts s"
  "length (activations (stopAllCallbackRetries s)) = length (activations s)"
  by (simp_all add: stopAllCallbackRetries_def)

text \<open>What the stop does to a suspension point: a sleep in \<open>waitPromises\<close> ends at the head of
  the loop.\<close>

lemma stop_step_nth:
  "t < length (activations s) \<Longrightarrow>
   activations (cb_step cfg Call_stopAllCallbackRetries s) ! t =
     (activations s ! t)\<lparr> at := resumed_pc (t \<in> set (waitPromises s))
        (stopped_pc (t \<in> set (waitPromises s)) (at (activations s ! t))) \<rparr>"
  by (simp add: resume_all_nth) (simp add: stopAllCallbackRetries_def foldr_stop_wait_nth)

lemma enter_fields:
  "stopCallbackRetry (callbackWithRetry cfg a now0 now1 s) = stopCallbackRetry s"
  "waitPromises (callbackWithRetry cfg a now0 now1 s) = waitPromises s"
  "callbackWithRetryData (callbackWithRetry cfg a now0 now1 s) = callbackWithRetryData s"
  "responseCallbackCalls (callbackWithRetry cfg a now0 now1 s) = responseCallbackCalls s"
  "responseCallbackThrows (callbackWithRetry cfg a now0 now1 s) = responseCallbackThrows s"
  "pendingCallbacksCount (callbackWithRetry cfg a now0 now1 s) = pendingCallbacksCount s + 1"
  "httpPosts (callbackWithRetry cfg a now0 now1 s) =
     (if stopCallbackRetry s then httpPosts s else httpPosts s @ [length (activations s)])"
  "activations (callbackWithRetry cfg a now0 now1 s) = activations s @
     [\<lparr> args = a, startTime = now0,
        at = (if stopCallbackRetry s then Returned Halted else AwaitHttpPost) \<rparr>]"
  by (simp_all add: callbackWithRetry_def Let_def)

lemma resume_fields:
  "stopCallbackRetry (resumeCallbackToClient cfg d s) = stopCallbackRetry s"
  "waitPromises (resumeCallbackToClient cfg d s) = waitPromises s"
  "callbackWithRetryData (resumeCallbackToClient cfg d s) = callbackWithRetryData s"
  "responseCallbackCalls (resumeCallbackToClient cfg d s) = responseCallbackCalls s"
  "responseCallbackThrows (resumeCallbackToClient cfg d s) = responseCallbackThrows s"
  "activations (resumeCallbackToClient cfg d s) = activations s @
     map (\<lambda>(a, now0, now1). \<lparr> args = a\<lparr> deadline := None \<rparr>, startTime = now0,
        at = (if stopCallbackRetry s then Returned Halted else AwaitHttpPost) \<rparr>) d"
  unfolding resumeCallbackToClient_def
  by (induction d arbitrary: s; simp add: enter_fields split_def)+

lemma resume_posts:
  "httpPosts (resumeCallbackToClient cfg d s) =
     (if stopCallbackRetry s then httpPosts s
      else httpPosts s @ [length (activations s) ..< length (activations s) + length d])"
  unfolding resumeCallbackToClient_def
proof (induction d arbitrary: s)
  case Nil
  then show ?case by simp
next
  case (Cons x d)
  obtain a now0 now1 where x: "x = (a, now0, now1)" by (cases x)
  have "[length (activations s) ..< length (activations s) + Suc (length d)] =
        length (activations s) # [Suc (length (activations s)) ..< Suc (length (activations s)) + length d]"
    by (simp add: upt_conv_Cons del: upt_Suc)
  with Cons.IH [of "callbackWithRetry cfg (a\<lparr> deadline := None \<rparr>) now0 now1 s"]
  show ?case
    by (simp add: x enter_fields del: upt_Suc)
qed

lemmas cb_handlers = callbackWithRetry_def on_httpPost_resolved_def on_httpPost_rejected_def
  on_shouldRetry_settled_def on_wait_settled_def setCallbackWithRetryData_def
  suspended_at_def Let_def

lemma step_keeps_stop: "stopCallbackRetry s \<Longrightarrow> stopCallbackRetry (cb_step cfg e s)"
  by (cases e)
     (simp_all add: cb_handlers resume_fields split: option.split pc.split try_outcome.split
        try_point.split)

lemma step_no_post_when_stopped: "stopCallbackRetry s \<Longrightarrow> httpPosts (cb_step cfg e s) = httpPosts s"
  by (cases e)
     (simp_all add: cb_handlers resume_fields resume_posts resume_all_posts
        split: option.split pc.split try_outcome.split try_point.split)

lemma run_stopped:
  "stopCallbackRetry s \<Longrightarrow>
   stopCallbackRetry (cb_run cfg es s) \<and> httpPosts (cb_run cfg es s) = httpPosts s"
  by (induction es arbitrary: s) (simp_all add: step_keeps_stop step_no_post_when_stopped)

lemma step_length: "length (activations s) \<le> length (activations (cb_step cfg e s))"
  by (cases e)
     (simp_all add: cb_handlers resume_fields split: option.split pc.split try_outcome.split
        try_point.split)

text \<open>What a handler run for activation \<open>u\<close> leaves alone of another activation \<open>t\<close>.\<close>

lemma rejected_frame:
  assumes "t \<noteq> u"
  shows "suspended_at t (on_httpPost_rejected cfg u err n d1 d2 s) = suspended_at t s"
    and "filter (\<lambda>v. v = t) (httpPosts (on_httpPost_rejected cfg u err n d1 d2 s))
           = filter (\<lambda>v. v = t) (httpPosts s)"
    and "filter (\<lambda>c. fst c = t) (responseCallbackCalls (on_httpPost_rejected cfg u err n d1 d2 s))
           = filter (\<lambda>c. fst c = t) (responseCallbackCalls s)"
  using assms by (simp_all add: on_httpPost_rejected_def Let_def suspended_at_def)

lemma resolved_frame:
  assumes "t \<noteq> u"
  shows "suspended_at t (on_httpPost_resolved cfg u resp now outcome s) = suspended_at t s"
    and "filter (\<lambda>v. v = t) (httpPosts (on_httpPost_resolved cfg u resp now outcome s))
           = filter (\<lambda>v. v = t) (httpPosts s)"
    and "filter (\<lambda>c. fst c = t) (responseCallbackCalls (on_httpPost_resolved cfg u resp now outcome s))
           = filter (\<lambda>c. fst c = t) (responseCallbackCalls s)"
proof -
  have "suspended_at t (on_httpPost_resolved cfg u resp now outcome s) = suspended_at t s
      \<and> filter (\<lambda>v. v = t) (httpPosts (on_httpPost_resolved cfg u resp now outcome s))
           = filter (\<lambda>v. v = t) (httpPosts s)
      \<and> filter (\<lambda>c. fst c = t) (responseCallbackCalls (on_httpPost_resolved cfg u resp now outcome s))
           = filter (\<lambda>c. fst c = t) (responseCallbackCalls s)"
  proof (cases outcome)
    case Completes
    with assms show ?thesis
      by (simp add: on_httpPost_resolved_def Let_def suspended_at_def)
  next
    case (ThrowsAt p err n d1 d2)
    with assms show ?thesis
      by (cases p)
         (simp_all add: on_httpPost_resolved_def Let_def rejected_frame,
          simp_all add: suspended_at_def)
  qed
  then show "suspended_at t (on_httpPost_resolved cfg u resp now outcome s) = suspended_at t s"
    and "filter (\<lambda>v. v = t) (httpPosts (on_httpPost_resolved cfg u resp now outcome s))
           = filter (\<lambda>v. v = t) (httpPosts s)"
    and "filter (\<lambda>c. fst c = t) (responseCallbackCalls (on_httpPost_resolved cfg u resp now outcome s))
           = filter (\<lambda>c. fst c = t) (responseCallbackCalls s)"
    by simp_all
qed

lemma should_frame:
  assumes "t \<noteq> u"
  shows "suspended_at t (on_shouldRetry_settled u outcome n s) = suspended_at t s"
    and "filter (\<lambda>v. v = t) (httpPosts (on_shouldRetry_settled u outcome n s))
           = filter (\<lambda>v. v = t) (httpPosts s)"
    and "filter (\<lambda>c. fst c = t) (responseCallbackCalls (on_shouldRetry_settled u outcome n s))
           = filter (\<lambda>c. fst c = t) (responseCallbackCalls s)"
  using assms by (simp_all add: on_shouldRetry_settled_def Let_def suspended_at_def)

lemma wait_frame:
  assumes "t \<noteq> u"
  shows "suspended_at t (on_wait_settled u s) = suspended_at t s"
    and "filter (\<lambda>v. v = t) (httpPosts (on_wait_settled u s))
           = filter (\<lambda>v. v = t) (httpPosts s)"
    and "filter (\<lambda>c. fst c = t) (responseCallbackCalls (on_wait_settled u s))
           = filter (\<lambda>c. fst c = t) (responseCallbackCalls s)"
  using assms by (simp_all add: suspended_at_def)

lemma step_returned:
  assumes r: "suspended_at t s = Some (Returned x)"
  shows "suspended_at t (cb_step cfg e s) = Some (Returned x) \<and>
   filter (\<lambda>u. u = t) (httpPosts (cb_step cfg e s)) = filter (\<lambda>u. u = t) (httpPosts s) \<and>
   filter (\<lambda>c. fst c = t) (responseCallbackCalls (cb_step cfg e s))
     = filter (\<lambda>c. fst c = t) (responseCallbackCalls s)"
proof (cases e)
  case (Call_setCallbackWithRetryData a)
  with r show ?thesis
    by (auto simp: setCallbackWithRetryData_def suspended_at_def split: if_splits)
next
  case (Call_callbackWithRetry a now0 now1)
  with r show ?thesis
    by (auto simp: enter_fields suspended_at_def nth_append split: if_splits)
next
  case (HttpPostResolved u resp now)
  with r show ?thesis
    by (cases "u = t") (simp_all add: resolved_frame split: option.split pc.split)
next
  case (HttpPostResolvedThrows u resp now p err n d1 d2)
  with r show ?thesis
    by (cases "u = t") (simp_all add: resolved_frame split: option.split pc.split)
next
  case (HttpPostRejected u err n d1 d2)
  with r show ?thesis
    by (cases "u = t") (simp_all add: rejected_frame split: option.split pc.split)
next
  case (ShouldRetrySettled u outcome)
  with r show ?thesis
    by (cases "u = t") (simp_all add: should_frame split: option.split pc.split)
next
  case (WaitSettled u)
  with r show ?thesis
    by (cases "u = t") (simp_all add: wait_frame split: option.split pc.split)
next
  case Call_stopAllCallbackRetries
  from r have t: "t < length (activations s)" "at (activations s ! t) = Returned x"
    by (simp_all add: suspended_at_def split: if_splits)
  have "suspended_at t (cb_step cfg Call_stopAllCallbackRetries s) = Some (Returned x)"
    unfolding suspended_at_def using t
    by (simp only: stop_step_nth) (simp add: resume_all_posts)
  then show ?thesis
    unfolding Call_stopAllCallbackRetries by (simp add: resume_all_posts)
next
  case (ResumeAnswered d)
  with r show ?thesis
    by (auto simp: suspended_at_def resume_fields resume_posts nth_append split: if_splits)
qed

lemma run_returned:
  "suspended_at t s = Some (Returned x) \<Longrightarrow>
   suspended_at t (cb_run cfg es s) = Some (Returned x) \<and>
   filter (\<lambda>u. u = t) (httpPosts (cb_run cfg es s)) = filter (\<lambda>u. u = t) (httpPosts s) \<and>
   filter (\<lambda>c. fst c = t) (responseCallbackCalls (cb_run cfg es s))
     = filter (\<lambda>c. fst c = t) (responseCallbackCalls s)"
proof (induction es arbitrary: s)
  case Nil
  then show ?case by simp
next
  case (Cons e es)
  from step_returned [OF Cons.prems, of cfg e] Cons.IH [of "cb_step cfg e s"]
  show ?case by simp
qed

lemma cb_inv_init: "cb_inv (cb_init db)"
  by (simp add: cb_inv_def cb_init_def)

lemma cb_inv_set: "cb_inv s \<Longrightarrow> cb_inv (setCallbackWithRetryData a s)"
  by (simp add: cb_inv_def setCallbackWithRetryData_def)

lemma cb_inv_enter: "cb_inv s \<Longrightarrow> cb_inv (callbackWithRetry cfg a now0 now1 s)"
  by (auto simp: cb_inv_def enter_fields nth_append less_Suc_eq)

lemma cb_inv_rejected:
  "cb_inv s \<Longrightarrow> t < length (activations s) \<Longrightarrow> at (activations s ! t) = AwaitHttpPost \<Longrightarrow>
   cb_inv (on_httpPost_rejected cfg t err n d1 d2 s)"
  by (auto simp: cb_inv_def on_httpPost_rejected_def Let_def nth_list_update)

lemma cb_inv_resolved:
  assumes "cb_inv s" "t < length (activations s)" "at (activations s ! t) = AwaitHttpPost"
  shows "cb_inv (on_httpPost_resolved cfg t resp now outcome s)"
proof -
  have pre: "cb_inv x \<and> t < length (activations x) \<and> at (activations x ! t) = AwaitHttpPost"
    if "httpPosts x = httpPosts s" "responseCallbackCalls x = responseCallbackCalls s"
      "waitPromises x = waitPromises s" "activations x = activations s" for x
    using assms that by (simp add: cb_inv_def)
  show ?thesis
  proof (cases outcome)
    case Completes
    with assms show ?thesis
      by (auto simp: cb_inv_def on_httpPost_resolved_def Let_def nth_list_update)
  next
    case (ThrowsAt p err n d1 d2)
    show ?thesis
    proof (cases "p = ResponseCallback \<and> \<not> truthy_string (responseCallbackFnName (args (activations s ! t)))")
      case True
      with assms ThrowsAt show ?thesis
        by (auto simp: cb_inv_def on_httpPost_resolved_def Let_def nth_list_update)
    next
      case False
      then obtain x where x: "on_httpPost_resolved cfg t resp now outcome s
            = on_httpPost_rejected cfg t err n d1 d2 x"
        "httpPosts x = httpPosts s" "responseCallbackCalls x = responseCallbackCalls s"
        "waitPromises x = waitPromises s" "activations x = activations s"
        unfolding ThrowsAt by (cases p) (auto simp: on_httpPost_resolved_def Let_def)
      from pre [OF x(2-5)] show ?thesis
        unfolding x(1) by (simp add: cb_inv_rejected)
    qed
  qed
qed

lemma cb_inv_should:
  "cb_inv s \<Longrightarrow> t < length (activations s) \<Longrightarrow> at (activations s ! t) = AwaitShouldRetry n \<Longrightarrow>
   cb_inv (on_shouldRetry_settled t outcome n s)"
  by (auto simp: cb_inv_def on_shouldRetry_settled_def Let_def nth_list_update)

lemma cb_inv_wait:
  "cb_inv s \<Longrightarrow> t < length (activations s) \<Longrightarrow> at (activations s ! t) = AwaitWait n b \<Longrightarrow>
   cb_inv (on_wait_settled t s)"
  by (auto simp: cb_inv_def splice_out_def nth_list_update)

lemma stop_step_fields:
  "stopCallbackRetry (cb_step cfg Call_stopAllCallbackRetries s)"
  "pendingCallbacksCount (cb_step cfg Call_stopAllCallbackRetries s) = pendingCallbacksCount s"
  "callbackWithRetryData (cb_step cfg Call_stopAllCallbackRetries s) = callbackWithRetryData s"
  "emitted (cb_step cfg Call_stopAllCallbackRetries s) = emitted s"
  "responseCallbackCalls (cb_step cfg Call_stopAllCallbackRetries s) = responseCallbackCalls s"
  "httpPosts (cb_step cfg Call_stopAllCallbackRetries s) = httpPosts s"
  "length (activations (cb_step cfg Call_stopAllCallbackRetries s)) = length (activations s)"
  by (simp_all add: resume_all_posts)

lemma stop_step_at:
  assumes "cb_inv s" "t < length (activations s)"
  shows "at (activations (cb_step cfg Call_stopAllCallbackRetries s) ! t) =
     (case at (activations s ! t) of AwaitWait n b \<Rightarrow> Returned Halted | p \<Rightarrow> p)"
proof (cases "at (activations s ! t)")
  case (AwaitWait n b)
  with assms have "t \<in> set (waitPromises s)" by (auto simp: cb_inv_def)
  with AwaitWait assms(2) show ?thesis by (simp only: stop_step_nth) simp
qed (use assms(2) in \<open>simp_all only: stop_step_nth, simp_all\<close>)

lemma cb_inv_stop:
  assumes "cb_inv s"
  shows "cb_inv (cb_step cfg Call_stopAllCallbackRetries s)"
proof -
  let ?s' = "cb_step cfg Call_stopAllCallbackRetries s"
  have a: "at (activations ?s' ! t) =
     (case at (activations s ! t) of AwaitWait n b \<Rightarrow> Returned Halted | p \<Rightarrow> p)"
    if "t < length (activations s)" for t
    by (rule stop_step_at [OF assms that])
  show ?thesis
    unfolding cb_inv_def stop_step_fields
  proof (intro conjI allI impI ballI)
    fix t assume "t \<in> set (httpPosts s)"
    with assms show "t < length (activations s)" by (simp add: cb_inv_def)
  next
    fix c assume c: "c \<in> set (responseCallbackCalls s)"
    with assms show "fst c < length (activations s)" by (simp add: cb_inv_def)
    with assms c a [of "fst c"]
    show "at (activations ?s' ! fst c) = Returned Delivered \<or>
          at (activations ?s' ! fst c) = Returned BodyTooLarge"
      by (auto simp: cb_inv_def)
  next
    fix t n b
    assume t: "t < length (activations s)" and w: "at (activations ?s' ! t) = AwaitWait n b"
    from a [OF t] w have False by (cases "at (activations s ! t)") simp_all
    then show "t \<in> set (waitPromises ?s')" by simp
  next
    fix t n
    assume t: "t < length (activations s)"
    from a [OF t] show "at (activations ?s' ! t) \<noteq> AwaitWait n True"
      by (cases "at (activations s ! t)") simp_all
  qed
qed

lemma cb_inv_resume: "cb_inv s \<Longrightarrow> cb_inv (resumeCallbackToClient cfg d s)"
  unfolding resumeCallbackToClient_def
  by (induction d arbitrary: s) (simp_all add: cb_inv_enter split_def)

lemma cb_inv_step: "cb_inv s \<Longrightarrow> cb_inv (cb_step cfg e s)"
  by (cases e)
     (auto simp: suspended_at_def cb_inv_set cb_inv_enter cb_inv_resolved cb_inv_rejected
        cb_inv_should cb_inv_wait cb_inv_stop cb_inv_resume
        simp del: cb_step.simps(8)
        split: option.split pc.split if_splits)

lemma cb_inv_run: "cb_inv s \<Longrightarrow> cb_inv (cb_run cfg es s)"
  by (induction es arbitrary: s) (simp_all add: cb_inv_step)

lemma cb_inv_reach: "cb_inv (cb_run cfg es (cb_init db))"
  by (simp add: cb_inv_run cb_inv_init)

lemma suspended_atD:
  "suspended_at t s = Some p \<Longrightarrow> t < length (activations s) \<and> at (activations s ! t) = p"
  by (simp add: suspended_at_def split: if_splits)




lemma awaiting_example_eval:
  "awaiting_example = \<lparr> stopCallbackRetry = False, pendingCallbacksCount = 1,
     pendingCallback = Map.empty, waitPromises = [],
     callbackWithRetryData = [''cb1'' \<mapsto> args_example],
     emitted = [PendingCallbacksCount 1], responseCallbackCalls = [],
     responseCallbackThrows = [], httpPosts = [0],
     activations = [\<lparr> args = args_example, startTime = 0, at = AwaitHttpPost \<rparr>] \<rparr>"
  by (simp add: awaiting_example_def cb_init_def setCallbackWithRetryData_def
        callbackWithRetry_def incrementPendingCallbacksCount_def loop_head_def set_at_def
        cfg_example_def args_example_def Let_def)



lemma cb_run_append: "cb_run cfg (xs @ ys) s = cb_run cfg ys (cb_run cfg xs s)"
  by (induction xs arbitrary: s) simp_all


lemma asking_example_eval:
  "asking_example = \<lparr> stopCallbackRetry = False, pendingCallbacksCount = 1,
     pendingCallback = Map.empty, waitPromises = [],
     callbackWithRetryData = [''cb2'' \<mapsto> args_pred_example],
     emitted = [PendingCallbacksCount 1], responseCallbackCalls = [],
     responseCallbackThrows = [], httpPosts = [0],
     activations = [\<lparr> args = args_pred_example, startTime = 0, at = AwaitShouldRetry 5000 \<rparr>] \<rparr>"
  by (simp add: asking_example_def cb_init_def setCallbackWithRetryData_def
        callbackWithRetry_def incrementPendingCallbacksCount_def loop_head_def set_at_def
        on_httpPost_rejected_def suspended_at_def is_max_size_def truthy_string_def
        cfg_example_def args_pred_example_def Let_def)


text \<open>
  Claim C9. When the should-retry function throws, \<open>callbackWithRetry\<close> goes on as if it
  had returned true: the delivery is not ended, the persisted record and the counter are
  left alone, the activation sleeps for the computed backoff, and when the sleep ends it
  makes the next HTTP attempt (unless the retries were stopped in the meantime).
\<close>

theorem should_retry_throw_retries:
  assumes susp: "suspended_at t s = Some (AwaitShouldRetry n)"
  shows "let s' = cb_step cfg (ShouldRetrySettled t Throws) s;
             s2 = cb_step cfg (WaitSettled t) s'
         in cb_step cfg (ShouldRetrySettled t (Returns True)) s = s'
          \<and> suspended_at t s' = Some (AwaitWait n False)
          \<and> callbackWithRetryData s' = callbackWithRetryData s
          \<and> pendingCallbacksCount s' = pendingCallbacksCount s
          \<and> emitted s' = emitted s
          \<and> httpPosts s' = httpPosts s
          \<and> callbackWithRetryData s2 = callbackWithRetryData s
          \<and> pendingCallbacksCount s2 = pendingCallbacksCount s
          \<and> (if stopCallbackRetry s
              then suspended_at t s2 = Some (Returned Halted) \<and> httpPosts s2 = httpPosts s
              else suspended_at t s2 = Some AwaitHttpPost \<and> httpPosts s2 = httpPosts s @ [t])"
proof -
  from susp have t: "t < length (activations s)" "at (activations s ! t) = AwaitShouldRetry n"
    by (auto dest: suspended_atD)
  define s' where "s' = on_shouldRetry_settled t Throws n s"
  have 1: "cb_step cfg (ShouldRetrySettled t Throws) s = s'"
    "cb_step cfg (ShouldRetrySettled t (Returns True)) s = s'"
    by (simp_all add: susp s'_def on_shouldRetry_settled_def)
  have 2: "suspended_at t s' = Some (AwaitWait n False)"
    "callbackWithRetryData s' = callbackWithRetryData s"
    "pendingCallbacksCount s' = pendingCallbacksCount s"
    "emitted s' = emitted s" "httpPosts s' = httpPosts s"
    "stopCallbackRetry s' = stopCallbackRetry s"
    using t by (simp_all add: s'_def on_shouldRetry_settled_def suspended_at_def)
  from 2(1) have t': "t < length (activations s')" by (auto dest: suspended_atD)
  have 3: "cb_step cfg (WaitSettled t) s' = on_wait_settled t s'"
    by (simp add: 2)
  show ?thesis
    unfolding Let_def 1 3 using 2 t'
    by (simp add: on_wait_settled_def suspended_at_def)
qed

theorem should_retry_throw_retries_witness:
  "let s' = cb_step cfg_example (ShouldRetrySettled 0 Throws) asking_example;
       s2 = cb_step cfg_example (WaitSettled 0) s'
   in suspended_at 0 asking_example = Some (AwaitShouldRetry 5000)
    \<and> suspended_at 0 s' = Some (AwaitWait 5000 False)
    \<and> callbackWithRetryData s2 ''cb2'' = Some args_pred_example
    \<and> suspended_at 0 s2 = Some AwaitHttpPost
    \<and> httpPosts s2 = [0, 0]"
proof -
  have h1: "suspended_at 0 asking_example = Some (AwaitShouldRetry 5000)"
    by (simp add: asking_example_eval suspended_at_def)
  have h3: "callbackWithRetryData asking_example ''cb2'' = Some args_pred_example"
    "\<not> stopCallbackRetry asking_example" "httpPosts asking_example = [0]"
    by (simp_all add: asking_example_eval)
  from should_retry_throw_retries [OF h1, of cfg_example]
  show ?thesis
    unfolding Let_def using h1
    by (simp add: h3 del: cb_run.simps cb_step.simps)
qed


lemma step_wait_settled:
  "suspended_at t s = Some (AwaitWait n b) \<Longrightarrow> cb_step cfg (WaitSettled t) s = on_wait_settled t s"
  by simp

text \<open>
  Claim C5, amended. Once \<open>stopAllCallbackRetries\<close> has run, the stop flag stays set and no
  HTTP attempt is started again, by any activation, old or new. The call itself deletes no
  record and leaves the counter alone. Every activation that is asleep at that moment has
  its sleep ended and returns at the head of the loop, and stays returned; every other
  activation is where it was: an attempt in flight is not cancelled. A sleep begun after
  the stop is not stopped; when it ends, the activation returns at the head of the loop
  without touching the persisted record or the counter. An activation started later returns at once as well. After a restart over
  the records that are left, \<open>resumeCallbackToClient\<close> starts an activation with an HTTP
  attempt for each record it is given.
\<close>

theorem stop_halts_sleeping_loops:
  assumes reach: "s = cb_run cfg es (cb_init db)"
  shows "let s1 = cb_step cfg Call_stopAllCallbackRetries s;
             s2 = cb_run cfg es' s1
         in stopCallbackRetry s1 \<and> stopCallbackRetry s2
          \<and> httpPosts s2 = httpPosts s
          \<and> callbackWithRetryData s1 = callbackWithRetryData s
          \<and> pendingCallbacksCount s1 = pendingCallbacksCount s
          \<and> (\<forall>t n b. suspended_at t s = Some (AwaitWait n b) \<longrightarrow>
                suspended_at t s1 = Some (Returned Halted) \<and>
                suspended_at t s2 = Some (Returned Halted))
          \<and> (\<forall>t p. suspended_at t s = Some p \<and> (\<forall>n b. p \<noteq> AwaitWait n b) \<longrightarrow>
                suspended_at t s1 = Some p)
          \<and> (\<forall>t n b. suspended_at t s2 = Some (AwaitWait n b) \<longrightarrow>
                (let s3 = cb_step cfg (WaitSettled t) s2
                 in \<not> b
                  \<and> suspended_at t s3 = Some (Returned Halted)
                  \<and> callbackWithRetryData s3 = callbackWithRetryData s2
                  \<and> pendingCallbacksCount s3 = pendingCallbacksCount s2
                  \<and> httpPosts s3 = httpPosts s2))
          \<and> (\<forall>a now0 now1.
                (let s3 = cb_step cfg (Call_callbackWithRetry a now0 now1) s2
                 in suspended_at (length (activations s2)) s3 = Some (Returned Halted)
                  \<and> callbackWithRetryData s3 = callbackWithRetryData s2
                  \<and> httpPosts s3 = httpPosts s2))
          \<and> (\<forall>d. (let r = resumeCallbackToClient cfg d (cb_init (callbackWithRetryData s2))
                    in httpPosts r = [0..<length d]
                     \<and> (\<forall>i<length d. suspended_at i r = Some AwaitHttpPost
                           \<and> args (activations r ! i) = (fst (d ! i))\<lparr> deadline := None \<rparr>)))"
proof -
  define s1 where "s1 = cb_step cfg Call_stopAllCallbackRetries s"
  define s2 where "s2 = cb_run cfg es' s1"
  have inv: "cb_inv s" using reach by (simp add: cb_inv_reach)
  have inv2: "cb_inv s2"
    unfolding s2_def s1_def by (intro cb_inv_run cb_inv_step inv)
  have 1: "stopCallbackRetry s1" "httpPosts s1 = httpPosts s"
    "callbackWithRetryData s1 = callbackWithRetryData s"
    "pendingCallbacksCount s1 = pendingCallbacksCount s"
    "length (activations s1) = length (activations s)"
    unfolding s1_def by (rule stop_step_fields)+
  from run_stopped [OF 1(1), of cfg es'] 1
  have 2: "stopCallbackRetry s2" "httpPosts s2 = httpPosts s"
    by (simp_all add: s2_def)
  have at1: "at (activations s1 ! t) =
      (case at (activations s ! t) of AwaitWait n b \<Rightarrow> Returned Halted | p \<Rightarrow> p)"
    if "t < length (activations s)" for t
    unfolding s1_def by (rule stop_step_at [OF inv that])
  have 3: "suspended_at t s1 = Some (Returned Halted) \<and> suspended_at t s2 = Some (Returned Halted)"
    if "suspended_at t s = Some (AwaitWait n b)" for t n b
  proof -
    from that have t: "t < length (activations s)" "at (activations s ! t) = AwaitWait n b"
      by (auto dest: suspended_atD)
    from at1 [OF t(1)] t 1(5) have h: "suspended_at t s1 = Some (Returned Halted)"
      by (simp add: suspended_at_def)
    from run_returned [OF h, of cfg es'] h show ?thesis by (simp add: s2_def)
  qed
  have 4: "suspended_at t s1 = Some p"
    if "suspended_at t s = Some p \<and> (\<forall>n b. p \<noteq> AwaitWait n b)" for t p
  proof -
    from that have t: "t < length (activations s)" "at (activations s ! t) = p"
      and p: "\<And>n b. p \<noteq> AwaitWait n b"
      by (auto dest: suspended_atD)
    show ?thesis
    proof (cases p)
      case (AwaitWait n b)
      with p show ?thesis by blast
    qed (use at1 [OF t(1)] t 1(5) in \<open>simp_all add: suspended_at_def\<close>)
  qed
  have 5: "let s3 = cb_step cfg (WaitSettled t) s2
           in \<not> b
            \<and> suspended_at t s3 = Some (Returned Halted)
            \<and> callbackWithRetryData s3 = callbackWithRetryData s2
            \<and> pendingCallbacksCount s3 = pendingCallbacksCount s2
            \<and> httpPosts s3 = httpPosts s2"
    if "suspended_at t s2 = Some (AwaitWait n b)" for t n b
  proof -
    from that have t: "t < length (activations s2)" "at (activations s2 ! t) = AwaitWait n b"
      by (auto dest: suspended_atD)
    from inv2 t have "\<not> b" by (cases b) (simp_all add: cb_inv_def)
    then show ?thesis
      unfolding step_wait_settled [OF that]
      using 2(1) t by (simp add: suspended_at_def)
  qed
  have 6: "let s3 = cb_step cfg (Call_callbackWithRetry a now0 now1) s2
           in suspended_at (length (activations s2)) s3 = Some (Returned Halted)
            \<and> callbackWithRetryData s3 = callbackWithRetryData s2
            \<and> httpPosts s3 = httpPosts s2" for a now0 now1
    using 2(1) by (simp add: enter_fields suspended_at_def)
  have 7: "let r = resumeCallbackToClient cfg d (cb_init (callbackWithRetryData s2))
           in httpPosts r = [0..<length d]
            \<and> (\<forall>i<length d. suspended_at i r = Some AwaitHttpPost
                  \<and> args (activations r ! i) = (fst (d ! i))\<lparr> deadline := None \<rparr>)" for d
    by (simp add: resume_fields resume_posts suspended_at_def cb_init_def split_def)
  show ?thesis
    unfolding Let_def s1_def [symmetric] s2_def [symmetric]
    using 1(1,3,4) 2 3 4 5 [unfolded Let_def] 6 [unfolded Let_def] 7 [unfolded Let_def]
    by (intro conjI allI impI) blast+
qed

lemma sleeping_example_eval:
  "sleeping_example = \<lparr> stopCallbackRetry = False, pendingCallbacksCount = 1,
     pendingCallback = Map.empty, waitPromises = [0],
     callbackWithRetryData = [''cb2'' \<mapsto> args_pred_example],
     emitted = [PendingCallbacksCount 1], responseCallbackCalls = [],
     responseCallbackThrows = [], httpPosts = [0],
     activations = [\<lparr> args = args_pred_example, startTime = 0, at = AwaitWait 5000 False \<rparr>] \<rparr>"
  by (simp add: sleeping_example_def cb_init_def setCallbackWithRetryData_def
        callbackWithRetry_def incrementPendingCallbacksCount_def loop_head_def set_at_def
        on_httpPost_rejected_def on_shouldRetry_settled_def start_wait_def
        suspended_at_def is_max_size_def truthy_string_def
        cfg_example_def args_pred_example_def Let_def)

lemma stopped_inflight_example_eval:
  "stopped_inflight_example = awaiting_example\<lparr> stopCallbackRetry := True \<rparr>"
  by (simp add: stopped_inflight_example_def awaiting_example_eval stopAllCallbackRetries_def
        resume_all_stopped_def)

lemma stopped_asking_example_eval:
  "stopped_asking_example = asking_example\<lparr> stopCallbackRetry := True \<rparr>"
  by (simp add: stopped_asking_example_def asking_example_eval stopAllCallbackRetries_def
        resume_all_stopped_def)

lemma late_sleep_example_eval:
  "suspended_at 0 late_sleep_example = Some (AwaitWait 5000 False)"
  "stopCallbackRetry late_sleep_example"
  "callbackWithRetryData late_sleep_example ''cb2'' = Some args_pred_example"
  by (simp_all add: late_sleep_example_def stopped_asking_example_eval asking_example_eval
        on_shouldRetry_settled_def suspended_at_def)

theorem stop_halts_sleeping_loops_witness:
  "suspended_at 0 sleeping_example = Some (AwaitWait 5000 False)
   \<and> suspended_at 0 (cb_step cfg_example Call_stopAllCallbackRetries sleeping_example)
       = Some (Returned Halted)
   \<and> callbackWithRetryData (cb_step cfg_example Call_stopAllCallbackRetries sleeping_example) ''cb2''
       = Some args_pred_example
   \<and> suspended_at 0 asking_example = Some (AwaitShouldRetry 5000)
   \<and> suspended_at 0 stopped_asking_example = Some (AwaitShouldRetry 5000)
   \<and> suspended_at 0 late_sleep_example = Some (AwaitWait 5000 False)
   \<and> suspended_at 0 (cb_step cfg_example (WaitSettled 0) late_sleep_example)
       = Some (Returned Halted)
   \<and> callbackWithRetryData (cb_step cfg_example (WaitSettled 0) late_sleep_example) ''cb2''
       = Some args_pred_example
   \<and> suspended_at 0 (resumeCallbackToClient cfg_example [(args_pred_example, 7, 7)]
        (cb_init (callbackWithRetryData
           (cb_step cfg_example Call_stopAllCallbackRetries sleeping_example))))
       = Some AwaitHttpPost"
proof -
  have h1: "suspended_at 0 sleeping_example = Some (AwaitWait 5000 False)"
    by (simp add: sleeping_example_eval suspended_at_def)
  have h2: "suspended_at 0 asking_example = Some (AwaitShouldRetry 5000)"
    "\<forall>n b. AwaitShouldRetry 5000 \<noteq> AwaitWait n b"
    by (simp_all add: asking_example_eval suspended_at_def)
  have h3: "callbackWithRetryData sleeping_example ''cb2'' = Some args_pred_example"
    by (simp add: sleeping_example_eval)
  note a = stop_halts_sleeping_loops [OF sleeping_example_def, of "[]",
      unfolded Let_def cb_run.simps]
  note b = stop_halts_sleeping_loops [OF asking_example_def,
      of "[ShouldRetrySettled 0 (Returns True)]", unfolded Let_def cb_run.simps,
      folded stopped_asking_example_def, folded late_sleep_example_def]
  from a h1 have 1: "suspended_at 0 (cb_step cfg_example Call_stopAllCallbackRetries sleeping_example)
       = Some (Returned Halted)"
    by blast
  from a have 2: "callbackWithRetryData (cb_step cfg_example Call_stopAllCallbackRetries sleeping_example)
       = callbackWithRetryData sleeping_example"
    by blast
  from b h2 have 3: "suspended_at 0 stopped_asking_example = Some (AwaitShouldRetry 5000)"
    by blast
  from b late_sleep_example_eval(1)
  have 4: "suspended_at 0 (cb_step cfg_example (WaitSettled 0) late_sleep_example)
       = Some (Returned Halted)"
    "callbackWithRetryData (cb_step cfg_example (WaitSettled 0) late_sleep_example)
       = callbackWithRetryData late_sleep_example"
    by blast+
  from a have "\<forall>i<length [(args_pred_example, 7::int, 7::int)].
      suspended_at i (resumeCallbackToClient cfg_example [(args_pred_example, 7, 7)]
        (cb_init (callbackWithRetryData
           (cb_step cfg_example Call_stopAllCallbackRetries sleeping_example))))
       = Some AwaitHttpPost"
    by blast
  then have 5: "suspended_at 0 (resumeCallbackToClient cfg_example [(args_pred_example, 7, 7)]
        (cb_init (callbackWithRetryData
           (cb_step cfg_example Call_stopAllCallbackRetries sleeping_example))))
       = Some AwaitHttpPost"
    by simp
  show ?thesis
    using h1 h2(1) 1 3 4(1) 5 late_sleep_example_eval(1)
    by (simp add: 2 4(2) h3 late_sleep_example_eval(3) del: cb_step.simps)
qed

text \<open>
  Claim C5 as stated fails for a delivery whose HTTP attempt is in flight when the retries
  are stopped: the attempt fails afterwards, elapsed time plus next backoff exceed the
  timeout, and the delivery ends with "timed out" and deletes its record, after the stop
  and not at the head of the loop. And a delivery stopped while its should-retry function
  is asked begins, on the answer \<open>true\<close>, a sleep that is not stopped.
\<close>

theorem inflight_attempt_outlives_stop:
  "stopCallbackRetry stopped_inflight_example
   \<and> suspended_at 0 stopped_inflight_example = Some AwaitHttpPost
   \<and> callbackWithRetryData stopped_inflight_example ''cb1'' = Some args_example
   \<and> stopCallbackRetry inflight_failed_example
   \<and> suspended_at 0 inflight_failed_example = Some (Returned TimedOut)
   \<and> callbackWithRetryData inflight_failed_example ''cb1'' = None
   \<and> stopCallbackRetry stopped_asking_example
   \<and> suspended_at 0 stopped_asking_example = Some (AwaitShouldRetry 5000)
   \<and> stopCallbackRetry late_sleep_example
   \<and> suspended_at 0 late_sleep_example = Some (AwaitWait 5000 False)"
proof -
  have 1: "stopCallbackRetry stopped_inflight_example"
    "suspended_at 0 stopped_inflight_example = Some AwaitHttpPost"
    "callbackWithRetryData stopped_inflight_example ''cb1'' = Some args_example"
    by (simp_all add: stopped_inflight_example_eval awaiting_example_eval suspended_at_def)
  have 2: "stopCallbackRetry inflight_failed_example"
    "suspended_at 0 inflight_failed_example = Some (Returned TimedOut)"
    "callbackWithRetryData inflight_failed_example ''cb1'' = None"
    by (simp_all add: inflight_failed_example_def stopped_inflight_example_eval
          awaiting_example_eval on_httpPost_rejected_def suspended_at_def is_max_size_def
          truthy_string_def cfg_example_def args_example_def Let_def)
  have 3: "stopCallbackRetry stopped_asking_example"
    "suspended_at 0 stopped_asking_example = Some (AwaitShouldRetry 5000)"
    by (simp_all add: stopped_asking_example_eval asking_example_eval suspended_at_def)
  from 1 2 3 late_sleep_example_eval(1,2) show ?thesis by simp
qed

text \<open>
  Claim C10, at an input where the code departs from it. One delivery, with a response
  callback that throws on the response of the first HTTP attempt, which succeeded. The
  counter has been decremented by then; the throw is caught by the \<open>catch\<close> block of the
  loop, the delivery sleeps and posts again, and when the second attempt succeeds the
  counter is decremented a second time: one activation, which has returned and was not
  halted, and a counter of \<open>-1\<close>.
\<close>

theorem thrown_response_callback_decrements_twice:
  "let s = cb_run cfg_example thrown_events (cb_init Map.empty)
   in length (activations s) = 1
    \<and> suspended_at 0 s = Some (Returned Delivered)
    \<and> \<not> stopCallbackRetry s
    \<and> pendingCallbacksCount s = - 1
    \<and> emitted s = [PendingCallbacksCount 1, PendingCallbacksCount 0, CallbackTime 200 True 50,
                    PendingCallbacksCount (- 1), CallbackTime 200 True 5200]
    \<and> httpPosts s = [0, 0]
    \<and> responseCallbackThrows s =
         [(0, ''onResponse'', ResponseObj \<lparr> resp_status = 200, resp_body = ''ok'' \<rparr>, ''data'')]
    \<and> responseCallbackCalls s =
         [(0, ''onResponse'', ResponseObj \<lparr> resp_status = 200, resp_body = ''ok'' \<rparr>, ''data'')]"
  by (simp add: thrown_events_def cb_init_def setCallbackWithRetryData_def
        callbackWithRetry_def incrementPendingCallbacksCount_def loop_head_def set_at_def
        on_httpPost_rejected_def start_wait_def on_httpPost_resolved_def
        decrementPendingCallbacksCount_def emit_def removeCallbackWithRetryData_def
        call_response_callback_def throw_response_callback_def on_wait_settled_def
        splice_out_def suspended_at_def is_max_size_def truthy_string_def
        cfg_example_def args_example_def Let_def)

text \<open>
  Claim C4, at an input where the code departs from it. No should-retry function, a
  deadline of 5000 that has passed (\<open>Date.now()\<close> is 6000), a retry timeout of 10 seconds,
  and elapsed time plus next backoff of 11000 milliseconds: the guard
  \<open>!deadline || Date.now() < deadline\<close> is false, the timeout test is skipped, the delivery
  does not end with "timed out", the record stays and the activation sleeps for the next
  retry.
\<close>

theorem passed_deadline_skips_timeout:
  "let s = cb_run cfg_example
             [Call_setCallbackWithRetryData args_deadline_example,
              Call_callbackWithRetry args_deadline_example 0 0,
              HttpPostRejected 0 (JsError ''FetchError'' ''system'') 5000 6000 6000]
             (cb_init Map.empty)
   in cfg_callbackRetryTimeout cfg_example * 1000 < 6000 - 0 + 5000
    \<and> (5000::int) < 6000
    \<and> suspended_at 0 s = Some (AwaitWait 5000 False)
    \<and> callbackWithRetryData s ''cb3'' = Some args_deadline_example
    \<and> pendingCallbacksCount s = 1
    \<and> CallbackTimedOut \<notin> set (emitted s)"
  by (simp add: cb_init_def setCallbackWithRetryData_def
        callbackWithRetry_def incrementPendingCallbacksCount_def loop_head_def set_at_def
        on_httpPost_rejected_def start_wait_def
        suspended_at_def is_max_size_def truthy_string_def
        cfg_example_def args_deadline_example_def Let_def)

section \<open>Properties of the task queue\<close>







lemma set_drop_nth: "set (drop_nth n xs) \<subseteq> set xs"
  by (auto simp: drop_nth_def dest: in_set_takeD in_set_dropD)






lemmas q_counters = incrementPendingTasksInQueueCount_def decrementPendingTasksInQueueCount_def
  incrementProcessingTasksCount_def decrementProcessingTasksCount_def
  incrementRequestsInQueueCount_def decrementRequestsInQueueCount_def q_emit_def





















lemmas q_defs = q_init_def addTaskToQueue_def addTaskToQueue_resume_def executeTaskInQueue_def
  executeTaskInQueue_resume_def onTaskExecutionFinished_def on_callback_settled_def
  cleanUpQueue_def q_counters drop_nth_def Let_def


text \<open>
  Claim C8, at an input where the code departs from it. \<open>task2\<close> is added for request
  \<open>req-1\<close> while \<open>task1\<close>, the only task in its queue, is running, and \<open>task1\<close> completes
  before the database acknowledges \<open>task2\<close>. \<open>onTaskExecutionFinished\<close> finds the queue
  empty and \<open>cleanUpQueue\<close> deletes it; the \<open>push\<close> of \<open>task2\<close> then throws a TypeError.
  Nothing is in flight any more, the in-memory queue of the request is gone, and the
  persisted record of \<open>task2\<close> remains.
\<close>

theorem late_add_leaves_persisted_record:
  "let s = q_run STANDALONE late_push (q_init (\<lambda>k. []))
   in started ''req-1'' (trace s) = [task1]
    \<and> finished ''req-1'' (trace s) = [task1]
    \<and> requestQueue s ''req-1'' = None
    \<and> requestsInQueueCount s = 0
    \<and> persistentQueue s ''req-1'' = [task2]
    \<and> uncaught s = [TypeError_push ''req-1'']
    \<and> adding s = [] \<and> immediates s = [] \<and> executing s = [] \<and> removing s = []
    \<and> thenWaiting s = []"
  by code_simp

section \<open>Properties of the block gate\<close>

lemmas g_defs = handleMessageFromMqWithBlockWait_def check_height_def return_to_caller_def
  addMqMessageTaskToQueue_def enqueue_def set_pc_def on_hasSeenChain_def on_persisted_def
  removeMessageFromMQ_def removeMessageIdToProcessAtBlock_def Let_def

lemma arrive_recognized:
  assumes "arrivals s m = None"
  shows "g_run (recognized_arrival m msg s) s =
         check_height m msg (s\<lparr> arrivals := (arrivals s)(m \<mapsto>
                     \<lparr> ar_message = msg, ar_pc = AwaitHasSeenChain \<rparr>) \<rparr>)"
  using assms
  by (simp add: recognized_arrival_def handleMessageFromMqWithBlockWait_def
        on_hasSeenChain_def Let_def)

lemma g_run_append: "g_run (xs @ ys) s = g_run ys (g_run xs s)"
  by (induction xs arbitrary: s) simp_all

text \<open>
  Claim C3, amended. For a message of a recognized chain,
  \<open>handleMessageFromMqWithBlockWait\<close> returns \<open>true\<close> at once, with nothing persisted and
  no lock taken, when the observed height is strictly greater than the height of the
  message. When the observed height is less than or equal to the height of the message
  it locks the message and persists the raw message and the index entry; if after that
  the observed height is still less than or equal, it releases the lock and returns
  \<open>false\<close>, leaving both records; if the observed height has passed the height of the
  message in the meantime, it removes both records and returns \<open>true\<close>.
\<close>

theorem admit_or_defer:
  assumes fresh: "arrivals s m = None"
  shows "(height msg < tm_latestBlockHeight s \<longrightarrow>
            (let s' = g_run (recognized_arrival m msg s) s
             in arrivals s' m = Some \<lparr> ar_message = msg, ar_pc = Resolved True \<rparr>
              \<and> messageFromMQ s' = messageFromMQ s
              \<and> processAtBlock s' = processAtBlock s
              \<and> messageProcessLock s' = messageProcessLock s
              \<and> queueCalls s' = queueCalls s @
                   [\<lparr> qc_messageId = m, qc_requestId = request_id msg,
                      qc_handler = ReleaseLock \<rparr>]))
       \<and> (tm_latestBlockHeight s \<le> height msg \<longrightarrow>
            (let s' = g_run (recognized_arrival m msg s @
                             [DbSetMessage m, DbAddIndex m, PersistSettled m]) s
             in arrivals s' m = Some \<lparr> ar_message = msg, ar_pc = Resolved False \<rparr>
              \<and> messageFromMQ s' m = Some msg
              \<and> processAtBlock s' = processAtBlock s @ [(height msg, m)]
              \<and> m \<notin> messageProcessLock s'
              \<and> queueCalls s' = queueCalls s))
       \<and> (tm_latestBlockHeight s \<le> height msg \<and> height msg < new \<longrightarrow>
            (let s' = g_run (recognized_arrival m msg s @
                             [DbSetMessage m, DbAddIndex m, NewBlock new, PersistSettled m,
                              DbRemoveMessage m, DbRemoveIndex m, RemoveSettled m]) s
             in arrivals s' m = Some \<lparr> ar_message = msg, ar_pc = Resolved True \<rparr>
              \<and> messageFromMQ s' m = None
              \<and> processAtBlock s' = filter (\<lambda>e. snd e \<noteq> m) (processAtBlock s)
              \<and> queueCalls s' = queueCalls s @
                   [\<lparr> qc_messageId = m, qc_requestId = request_id msg,
                      qc_handler = ReleaseLock \<rparr>]))"
  unfolding g_run_append arrive_recognized [OF fresh] Let_def
  by (simp add: g_defs new_block_def)

theorem admit_or_defer_witness:
  "arrivals (g_init ''chain'' 100) ''m1'' = None
   \<and> height late_msg_example < 106 \<and> tm_latestBlockHeight (g_init ''chain'' 100) \<le> height late_msg_example
   \<and> arrivals (g_run (recognized_arrival ''m1'' late_msg_example (g_init ''chain'' 100) @
                 [DbSetMessage ''m1'', DbAddIndex ''m1'', PersistSettled ''m1''])
                (g_init ''chain'' 100)) ''m1''
       = Some \<lparr> ar_message = late_msg_example, ar_pc = Resolved False \<rparr>
   \<and> arrivals (g_run (recognized_arrival ''m1'' late_msg_example (g_init ''chain'' 100) @
                 [DbSetMessage ''m1'', DbAddIndex ''m1'', NewBlock 106, PersistSettled ''m1'',
                  DbRemoveMessage ''m1'', DbRemoveIndex ''m1'', RemoveSettled ''m1''])
                (g_init ''chain'' 100)) ''m1''
       = Some \<lparr> ar_message = late_msg_example, ar_pc = Resolved True \<rparr>
   \<and> height msg_example < tm_latestBlockHeight (g_init ''chain'' 101)
   \<and> arrivals (g_run (recognized_arrival ''m1'' msg_example (g_init ''chain'' 101))
                (g_init ''chain'' 101)) ''m1''
       = Some \<lparr> ar_message = msg_example, ar_pc = Resolved True \<rparr>"
proof -
  have f: "arrivals (g_init ''chain'' 100) ''m1'' = None"
    "arrivals (g_init ''chain'' 101) ''m1'' = None"
    by (simp_all add: g_init_def)
  have h: "height late_msg_example < 106"
    "tm_latestBlockHeight (g_init ''chain'' 100) \<le> height late_msg_example"
    "height msg_example < tm_latestBlockHeight (g_init ''chain'' 101)"
    by (simp_all add: g_init_def late_msg_example_def msg_example_def)
  from admit_or_defer [OF f(1), of late_msg_example 106]
       admit_or_defer [OF f(2), of msg_example 0] f h
  show ?thesis
    unfolding Let_def by blast
qed

text \<open>
  Claim C3 as stated fails where the two heights are equal: the observed height 100 is
  greater than or equal to the height 100 of the message, yet the message is not
  admitted; it is persisted and \<open>false\<close> is returned.
\<close>

theorem equal_height_is_deferred:
  "height msg_example \<le> tm_latestBlockHeight (g_init ''chain'' 100)
   \<and> tm_chainId (g_init ''chain'' 100) = chain_id msg_example
   \<and> tm_latestBlockHeight deferred_example = 100
   \<and> arrivals deferred_example ''m1''
       = Some \<lparr> ar_message = msg_example, ar_pc = Resolved False \<rparr>
   \<and> messageFromMQ deferred_example ''m1'' = Some msg_example
   \<and> processAtBlock deferred_example = [(100, ''m1'')]
   \<and> queueCalls deferred_example = []"
  by (simp add: deferred_example_def msg_example_def g_init_def g_defs)

subsection \<open>Counting occurrences\<close>

lemma occ_simps [simp]:
  "occ P [] = 0" "occ P (x # xs) = (if P x then 1 else 0) + occ P xs"
  "occ P (xs @ ys) = occ P xs + occ P ys"
  by (simp_all add: occ_def)

lemma occ_drop_nth:
  "n < length xs \<Longrightarrow> occ P (drop_nth n xs) + (if P (xs ! n) then 1 else 0) = occ P xs"
proof (induction xs arbitrary: n)
  case Nil
  then show ?case by simp
next
  case (Cons x xs)
  show ?case
  proof (cases n)
    case 0
    then show ?thesis by (simp add: drop_nth_def)
  next
    case (Suc j)
    with Cons.prems have "j < length xs" by simp
    from Cons.IH [OF this] Suc show ?thesis by (simp add: drop_nth_def)
  qed
qed

lemma sum_drop_nth:
  "n < length xs \<Longrightarrow> sum_list (map f (drop_nth n xs)) + f (xs ! n) = (sum_list (map f xs) :: nat)"
proof (induction xs arbitrary: n)
  case Nil
  then show ?case by simp
next
  case (Cons x xs)
  show ?case
  proof (cases n)
    case 0
    then show ?thesis by (simp add: drop_nth_def)
  next
    case (Suc j)
    with Cons.prems have "j < length xs" by simp
    from Cons.IH [OF this] Suc show ?thesis by (simp add: drop_nth_def)
  qed
qed

lemma occ_zero_iff: "occ P xs = 0 \<longleftrightarrow> (\<forall>x \<in> set xs. \<not> P x)"
  by (simp add: occ_def filter_empty_conv)

lemma occ_filter: "occ P (filter Q xs) = occ (\<lambda>x. P x \<and> Q x) xs"
  by (induction xs) simp_all

lemma occ_map: "occ P (map f xs) = occ (\<lambda>x. P (f x)) xs"
  by (induction xs) simp_all

lemma occ_cong: "(\<And>x. x \<in> set xs \<Longrightarrow> P x = Q x) \<Longrightarrow> occ P xs = occ Q xs"
  by (induction xs) simp_all

lemma occ_False [simp]: "occ (\<lambda>x. False) xs = 0"
  by (induction xs) simp_all

lemma occ_mono: "(\<And>x. x \<in> set xs \<Longrightarrow> P x \<Longrightarrow> Q x) \<Longrightarrow> occ P xs \<le> occ Q xs"
  by (induction xs) auto

lemma admissions_split: "admissions m s = direct_adm m s + sweep_adm m s"
proof -
  have "occ (\<lambda>c. qc_messageId c = m) xs =
        occ (\<lambda>c. qc_messageId c = m \<and> qc_handler c = ReleaseLock) xs +
        occ (\<lambda>c. qc_messageId c = m \<and> qc_handler c = ReleaseLockAndCleanUp) xs" for xs
    by (induction xs) (auto intro: handler.exhaust)
  then show ?thesis by (simp add: admissions_def direct_adm_def sweep_adm_def)
qed

subsection \<open>The invariant of the sweeps\<close>

lemma env_inv_init: "env_inv (g_init c h)"
  by (simp add: env_inv_def g_init_def)

lemma set_pc_fields [simp]:
  "tm_chainId (set_pc i p s) = tm_chainId s"
  "tm_latestBlockHeight (set_pc i p s) = tm_latestBlockHeight s"
  "messageProcessLock (set_pc i p s) = messageProcessLock s"
  "messageFromMQ (set_pc i p s) = messageFromMQ s"
  "processAtBlock (set_pc i p s) = processAtBlock s"
  "sweepRanges (set_pc i p s) = sweepRanges s"
  "awaitingIds (set_pc i p s) = awaitingIds s"
  "idsRead (set_pc i p s) = idsRead s"
  "items (set_pc i p s) = items s"
  "queueCalls (set_pc i p s) = queueCalls s"
  "unfinished (set_pc i p s) = unfinished s"
  "cleanupMessage (set_pc i p s) = cleanupMessage s"
  "cleanupIndex (set_pc i p s) = cleanupIndex s"
  by (simp_all add: set_pc_def)

lemma set_pc_arrivals:
  "arrivals (set_pc i p s) m =
     (if m = i then map_option (\<lambda>a. a\<lparr> ar_pc := p \<rparr>) (arrivals s i) else arrivals s m)"
  by (simp add: set_pc_def split: option.splits)

lemma enqueue_fields [simp]:
  "tm_chainId (enqueue i msg h s) = tm_chainId s"
  "tm_latestBlockHeight (enqueue i msg h s) = tm_latestBlockHeight s"
  "messageProcessLock (enqueue i msg h s) = messageProcessLock s"
  "messageFromMQ (enqueue i msg h s) = messageFromMQ s"
  "processAtBlock (enqueue i msg h s) = processAtBlock s"
  "arrivals (enqueue i msg h s) = arrivals s"
  "sweepRanges (enqueue i msg h s) = sweepRanges s"
  "awaitingIds (enqueue i msg h s) = awaitingIds s"
  "idsRead (enqueue i msg h s) = idsRead s"
  "items (enqueue i msg h s) = items s"
  "queueCalls (enqueue i msg h s) = queueCalls s @
     [\<lparr> qc_messageId = i, qc_requestId = request_id msg, qc_handler = h \<rparr>]"
  "unfinished (enqueue i msg h s) = unfinished s @
     [\<lparr> qc_messageId = i, qc_requestId = request_id msg, qc_handler = h \<rparr>]"
  "cleanupMessage (enqueue i msg h s) = cleanupMessage s"
  "cleanupIndex (enqueue i msg h s) = cleanupIndex s"
  by (simp_all add: enqueue_def Let_def)

lemma env_inv_cong:
  "tm_latestBlockHeight s' = tm_latestBlockHeight s \<Longrightarrow> sweepRanges s' = sweepRanges s \<Longrightarrow>
   awaitingIds s' = awaitingIds s \<Longrightarrow> unfinished s' = unfinished s \<Longrightarrow>
   queueCalls s' = queueCalls s \<Longrightarrow> env_inv s' = env_inv s"
  by (simp add: env_inv_def)

lemma env_inv_enqueue: "env_inv s \<Longrightarrow> env_inv (enqueue i msg h s)"
  by (auto simp: env_inv_def)

lemma env_inv_set_pc [simp]: "env_inv (set_pc i p s) = env_inv s"
  by (rule env_inv_cong) simp_all

lemma env_inv_return: "env_inv s \<Longrightarrow> env_inv (return_to_caller i msg r s)"
  by (simp add: return_to_caller_def addMqMessageTaskToQueue_def Let_def env_inv_enqueue)

lemma env_inv_lock [simp]: "env_inv (s\<lparr> messageProcessLock := L \<rparr>) = env_inv s"
  by (rule env_inv_cong) simp_all

lemma env_inv_check: "env_inv s \<Longrightarrow> env_inv (check_height i msg s)"
  by (simp add: check_height_def env_inv_return)

lemma env_inv_new_block: "env_inv s \<Longrightarrow> env_inv (new_block new s)"
proof -
  assume inv: "env_inv s"
  show ?thesis
  proof (cases "tm_latestBlockHeight s < new")
    case False
    with inv show ?thesis by (simp add: new_block_def)
  next
    case True
    from inv have e1: "\<And>r. r \<in> set (sweepRanges s) \<Longrightarrow> snd r < tm_latestBlockHeight s"
      and e2: "\<And>x. occ (covers x) (sweepRanges s) \<le> 1"
      and e3: "\<And>x. occ (covers x) (awaitingIds s) \<le> occ (covers x) (sweepRanges s)"
      and e4: "set (unfinished s) \<subseteq> set (queueCalls s)"
      by (auto simp: env_inv_def)
    have none: "occ (covers x) (sweepRanges s) = 0" if "tm_latestBlockHeight s \<le> x" for x
      unfolding occ_zero_iff using e1 that by (fastforce simp: covers_def)
    define s' where "s' = new_block new s"
    have f: "tm_latestBlockHeight s' = new"
      "sweepRanges s' = sweepRanges s @ [(tm_latestBlockHeight s, new - 1)]"
      "awaitingIds s' = awaitingIds s @ [(tm_latestBlockHeight s, new - 1)]"
      "unfinished s' = unfinished s" "queueCalls s' = queueCalls s"
      using True by (simp_all add: s'_def new_block_def)
    have 1: "snd r < tm_latestBlockHeight s'" if "r \<in> set (sweepRanges s')" for r
      using that e1 [of r] True by (auto simp: f)
    have 2: "occ (covers x) (sweepRanges s') \<le> 1" for x
    proof (cases "covers x (tm_latestBlockHeight s, new - 1)")
      case True
      then have "tm_latestBlockHeight s \<le> x" by (simp add: covers_def)
      from none [OF this] True show ?thesis by (simp add: f)
    next
      case False
      with e2 [of x] show ?thesis by (simp add: f)
    qed
    have 3: "occ (covers x) (awaitingIds s') \<le> occ (covers x) (sweepRanges s')" for x
      using e3 [of x] by (simp add: f)
    show ?thesis
      unfolding s'_def [symmetric] env_inv_def using 1 2 3 e4 by (simp add: f)
  qed
qed

lemma env_inv_answered:
  assumes "env_inv s" "n < length (awaitingIds s)"
  shows "env_inv (s\<lparr> awaitingIds := drop_nth n (awaitingIds s), idsRead := R \<rparr>)"
proof -
  from assms(1) have e3: "\<And>x. occ (covers x) (awaitingIds s) \<le> occ (covers x) (sweepRanges s)"
    by (simp add: env_inv_def)
  have "occ (covers x) (drop_nth n (awaitingIds s)) \<le> occ (covers x) (sweepRanges s)" for x
    using occ_drop_nth [OF assms(2), of "covers x"] e3 [of x] by simp
  with assms(1) show ?thesis
    by (simp add: env_inv_def)
qed

lemma env_inv_finished:
  assumes "env_inv s"
  shows "env_inv (run_handler c (s\<lparr> unfinished := drop_nth n (unfinished s) \<rparr>))"
proof -
  have "env_inv (run_handler c (s\<lparr> unfinished := drop_nth n (unfinished s) \<rparr>))
      = env_inv (s\<lparr> unfinished := drop_nth n (unfinished s) \<rparr>)"
    by (rule env_inv_cong)
       (simp_all add: run_handler_def releaseLock_def releaseLockAndCleanUp_def
          cleanUpMessage_def split: handler.splits)
  moreover from assms set_drop_nth [of n "unfinished s"]
  have "env_inv (s\<lparr> unfinished := drop_nth n (unfinished s) \<rparr>)"
    by (auto simp: env_inv_def)
  ultimately show ?thesis by simp
qed

lemma env_inv_other:
  "env_inv (s\<lparr> messageFromMQ := a \<rparr>) = env_inv s"
  "env_inv (s\<lparr> processAtBlock := b \<rparr>) = env_inv s"
  "env_inv (s\<lparr> arrivals := c \<rparr>) = env_inv s"
  "env_inv (s\<lparr> idsRead := d \<rparr>) = env_inv s"
  "env_inv (s\<lparr> items := e \<rparr>) = env_inv s"
  "env_inv (s\<lparr> cleanupMessage := f \<rparr>) = env_inv s"
  "env_inv (s\<lparr> cleanupIndex := g \<rparr>) = env_inv s"
  by (rule env_inv_cong; simp)+

lemma env_inv_step: "env_inv s \<Longrightarrow> env_inv (g_step e s)"
proof (cases e)
  case (MessageArrives i msg)
  assume "env_inv s"
  then show ?thesis
    unfolding MessageArrives
    by (simp add: handleMessageFromMqWithBlockWait_def Let_def env_inv_check env_inv_other)
next
  case (HasSeenChainSettled i seen)
  assume "env_inv s"
  then show ?thesis
    unfolding HasSeenChainSettled
    by (simp add: on_hasSeenChain_def env_inv_check split: option.split g_pc.split)
next
  case (PersistSettled i)
  assume "env_inv s"
  then show ?thesis
    unfolding PersistSettled
    by (simp add: on_persisted_def env_inv_return split: option.split g_pc.split bool.split)
next
  case (RemoveSettled i)
  assume "env_inv s"
  then show ?thesis
    unfolding RemoveSettled
    by (simp add: env_inv_return split: option.split g_pc.split bool.split)
next
  case (NewBlock new)
  assume "env_inv s"
  then show ?thesis unfolding NewBlock by (simp add: env_inv_new_block)
next
  case (IdsAnswered n)
  assume "env_inv s"
  then show ?thesis unfolding IdsAnswered by (simp add: env_inv_answered)
next
  case (IdsSettled n)
  assume "env_inv s"
  then show ?thesis
    unfolding IdsSettled by (simp add: processMessageInBlocks_resume_def env_inv_other)
next
  case (ItemSettled n)
  assume "env_inv s"
  then show ?thesis
    unfolding ItemSettled
    by (simp add: process_item_def env_inv_other env_inv_enqueue split: option.split)
next
  case (TaskFinished n)
  assume "env_inv s"
  then show ?thesis unfolding TaskFinished by (simp add: env_inv_finished)
next
  case (DbSetMessage i)
  assume "env_inv s"
  then show ?thesis
    unfolding DbSetMessage
    by (simp add: env_inv_other split: option.split g_pc.split bool.split)
next
  case (DbAddIndex i)
  assume "env_inv s"
  then show ?thesis
    unfolding DbAddIndex
    by (simp add: env_inv_other split: option.split g_pc.split bool.split)
next
  case (DbRemoveMessage i)
  assume "env_inv s"
  then show ?thesis
    unfolding DbRemoveMessage
    by (simp add: env_inv_other removeMessageFromMQ_def split: option.split g_pc.split bool.split)
next
  case (DbRemoveIndex i)
  assume "env_inv s"
  then show ?thesis
    unfolding DbRemoveIndex
    by (simp add: env_inv_other removeMessageIdToProcessAtBlock_def
          split: option.split g_pc.split bool.split)
next
  case (CleanupMessageDone n)
  assume "env_inv s"
  then show ?thesis
    unfolding CleanupMessageDone
    by (simp add: env_inv_other removeMessageFromMQ_def)
next
  case (CleanupIndexDone n)
  assume "env_inv s"
  then show ?thesis
    unfolding CleanupIndexDone
    by (simp add: env_inv_other removeMessageIdToProcessAtBlock_def)
qed

subsection \<open>The invariant of one message\<close>

lemmas counts = snapc_def itemc_def admissions_def direct_adm_def sweep_adm_def in_sweep_def

lemma msg_inv_cong:
  assumes "arrivals s' m = arrivals s m"
    and "(m \<in> messageProcessLock s') = (m \<in> messageProcessLock s)"
    and "messageFromMQ s' m = messageFromMQ s m"
    and "mine m s' = mine m s"
    and "snapc m s' = snapc m s"
    and "itemc m s' = itemc m s"
    and "direct_adm m s' = direct_adm m s"
    and "sweep_adm m s' = sweep_adm m s"
    and "(m \<in> set (cleanupMessage s')) = (m \<in> set (cleanupMessage s))"
    and "(m \<in> set (cleanupIndex s')) = (m \<in> set (cleanupIndex s))"
    and "\<And>x. occ (covers x) (awaitingIds s') = occ (covers x) (awaitingIds s)"
    and "\<And>x. occ (covers x) (sweepRanges s') = occ (covers x) (sweepRanges s)"
    and "tm_latestBlockHeight s' = tm_latestBlockHeight s"
  shows "msg_inv m s' = msg_inv m s"
proof -
  have a: "admissions m s' = admissions m s"
    by (simp add: admissions_split assms)
  have i: "in_sweep m x s' = in_sweep m x s" for x
    using assms(5,6,8,11) by (simp add: in_sweep_def snapc_def itemc_def)
  have p: "pristine m s' = pristine m s"
    by (simp add: pristine_def assms a)
  have c: "common m msg s' = common m msg s" for msg
    by (simp add: common_def assms i)
  have ph: "phase m msg pc s' = phase m msg pc s" for msg pc
    by (cases "(m, msg, pc, s)" rule: phase.cases) (simp_all add: assms a i p)
  show ?thesis
    by (simp add: msg_inv_def assms(1) p c ph split: option.split)
qed

lemma mine_simps:
  "mine m (s\<lparr> processAtBlock := processAtBlock s @ [(x, i)] \<rparr>)
     = mine m s @ (if i = m then [(x, i)] else [])"
  "mine m (removeMessageIdToProcessAtBlock i s) = (if i = m then [] else mine m s)"
  by (auto simp: mine_def removeMessageIdToProcessAtBlock_def filter_empty_conv
        intro: filter_cong)

lemma ids_count:
  "occ (\<lambda>j. j = m) (getMessageIdsToProcessAtBlock f t s)
     = occ (\<lambda>e. f \<le> fst e \<and> fst e \<le> t) (mine m s)"
  by (simp add: getMessageIdsToProcessAtBlock_def mine_def occ_map occ_filter conj_commute)

lemma ids_count_mine:
  assumes "\<forall>e \<in> set (mine m s). fst e = h"
  shows "occ (\<lambda>j. j = m) (getMessageIdsToProcessAtBlock f t s)
     = (if covers h (f, t) then length (mine m s) else 0)"
proof -
  have "occ (\<lambda>e. f \<le> fst e \<and> fst e \<le> t) (mine m s) = occ (\<lambda>e. covers h (f, t)) (mine m s)"
    by (rule occ_cong) (use assms in \<open>auto simp: covers_def\<close>)
  also have "\<dots> = (if covers h (f, t) then length (mine m s) else 0)"
    by (simp add: occ_def)
  finally show ?thesis by (simp add: ids_count)
qed

lemma msg_inv_init: "msg_inv m (g_init c h)"
  by (simp add: msg_inv_def g_init_def pristine_def mine_def counts)

lemma in_sweep_alt:
  "in_sweep m h s = occ (covers h) (awaitingIds s) + snapc m s + itemc m s + sweep_adm m s"
  by (simp add: counts)

lemma q_set_pc [simp]:
  "mine m (set_pc i p s) = mine m s" "snapc m (set_pc i p s) = snapc m s"
  "itemc m (set_pc i p s) = itemc m s" "direct_adm m (set_pc i p s) = direct_adm m s"
  "sweep_adm m (set_pc i p s) = sweep_adm m s"
  by (simp_all add: mine_def counts)

lemma q_lock [simp]:
  "mine m (s\<lparr> messageProcessLock := L \<rparr>) = mine m s"
  "snapc m (s\<lparr> messageProcessLock := L \<rparr>) = snapc m s"
  "itemc m (s\<lparr> messageProcessLock := L \<rparr>) = itemc m s"
  "direct_adm m (s\<lparr> messageProcessLock := L \<rparr>) = direct_adm m s"
  "sweep_adm m (s\<lparr> messageProcessLock := L \<rparr>) = sweep_adm m s"
  by (simp_all add: mine_def counts)

lemma q_arrivals [simp]:
  "mine m (s\<lparr> arrivals := A \<rparr>) = mine m s"
  "snapc m (s\<lparr> arrivals := A \<rparr>) = snapc m s"
  "itemc m (s\<lparr> arrivals := A \<rparr>) = itemc m s"
  "direct_adm m (s\<lparr> arrivals := A \<rparr>) = direct_adm m s"
  "sweep_adm m (s\<lparr> arrivals := A \<rparr>) = sweep_adm m s"
  by (simp_all add: mine_def counts)

lemma q_message [simp]:
  "mine m (s\<lparr> messageFromMQ := M \<rparr>) = mine m s"
  "snapc m (s\<lparr> messageFromMQ := M \<rparr>) = snapc m s"
  "itemc m (s\<lparr> messageFromMQ := M \<rparr>) = itemc m s"
  "direct_adm m (s\<lparr> messageFromMQ := M \<rparr>) = direct_adm m s"
  "sweep_adm m (s\<lparr> messageFromMQ := M \<rparr>) = sweep_adm m s"
  by (simp_all add: mine_def counts)

lemma q_index [simp]:
  "snapc m (s\<lparr> processAtBlock := I \<rparr>) = snapc m s"
  "itemc m (s\<lparr> processAtBlock := I \<rparr>) = itemc m s"
  "direct_adm m (s\<lparr> processAtBlock := I \<rparr>) = direct_adm m s"
  "sweep_adm m (s\<lparr> processAtBlock := I \<rparr>) = sweep_adm m s"
  by (simp_all add: counts)

lemma q_enqueue [simp]:
  "mine m (enqueue i msg h s) = mine m s" "snapc m (enqueue i msg h s) = snapc m s"
  "itemc m (enqueue i msg h s) = itemc m s"
  "direct_adm m (enqueue i msg h s)
     = direct_adm m s + (if i = m \<and> h = ReleaseLock then 1 else 0)"
  "sweep_adm m (enqueue i msg h s)
     = sweep_adm m s + (if i = m \<and> h = ReleaseLockAndCleanUp then 1 else 0)"
  by (simp_all add: mine_def counts)

lemma q_remove_message [simp]:
  "mine m (removeMessageFromMQ i s) = mine m s" "snapc m (removeMessageFromMQ i s) = snapc m s"
  "itemc m (removeMessageFromMQ i s) = itemc m s"
  "direct_adm m (removeMessageFromMQ i s) = direct_adm m s"
  "sweep_adm m (removeMessageFromMQ i s) = sweep_adm m s"
  by (simp_all add: mine_def counts removeMessageFromMQ_def)

lemma q_remove_index [simp]:
  "snapc m (removeMessageIdToProcessAtBlock i s) = snapc m s"
  "itemc m (removeMessageIdToProcessAtBlock i s) = itemc m s"
  "direct_adm m (removeMessageIdToProcessAtBlock i s) = direct_adm m s"
  "sweep_adm m (removeMessageIdToProcessAtBlock i s) = sweep_adm m s"
  by (simp_all add: counts removeMessageIdToProcessAtBlock_def)

lemma f_remove [simp]:
  "tm_latestBlockHeight (removeMessageFromMQ i s) = tm_latestBlockHeight s"
  "messageProcessLock (removeMessageFromMQ i s) = messageProcessLock s"
  "messageFromMQ (removeMessageFromMQ i s) = (messageFromMQ s)(i := None)"
  "arrivals (removeMessageFromMQ i s) = arrivals s"
  "sweepRanges (removeMessageFromMQ i s) = sweepRanges s"
  "awaitingIds (removeMessageFromMQ i s) = awaitingIds s"
  "cleanupMessage (removeMessageFromMQ i s) = cleanupMessage s"
  "cleanupIndex (removeMessageFromMQ i s) = cleanupIndex s"
  "tm_latestBlockHeight (removeMessageIdToProcessAtBlock i s) = tm_latestBlockHeight s"
  "messageProcessLock (removeMessageIdToProcessAtBlock i s) = messageProcessLock s"
  "messageFromMQ (removeMessageIdToProcessAtBlock i s) = messageFromMQ s"
  "arrivals (removeMessageIdToProcessAtBlock i s) = arrivals s"
  "sweepRanges (removeMessageIdToProcessAtBlock i s) = sweepRanges s"
  "awaitingIds (removeMessageIdToProcessAtBlock i s) = awaitingIds s"
  "cleanupMessage (removeMessageIdToProcessAtBlock i s) = cleanupMessage s"
  "cleanupIndex (removeMessageIdToProcessAtBlock i s) = cleanupIndex s"
  by (simp_all add: removeMessageFromMQ_def removeMessageIdToProcessAtBlock_def)

lemmas inv_defs = pristine_def common_def in_sweep_alt admissions_split

lemma set_pc_other:
  "i \<noteq> m \<Longrightarrow> msg_inv m (set_pc i p s) = msg_inv m s"
  by (rule msg_inv_cong) (simp_all add: set_pc_arrivals)

lemma enqueue_other:
  "i \<noteq> m \<Longrightarrow> msg_inv m (enqueue i msg h s) = msg_inv m s"
  by (rule msg_inv_cong) simp_all

lemma lock_other:
  "i \<noteq> m \<Longrightarrow> msg_inv m (s\<lparr> messageProcessLock := insert i (messageProcessLock s) \<rparr>) = msg_inv m s"
  "i \<noteq> m \<Longrightarrow> msg_inv m (s\<lparr> messageProcessLock := messageProcessLock s - {i} \<rparr>) = msg_inv m s"
  by (rule msg_inv_cong; simp)+

lemma return_other:
  "i \<noteq> m \<Longrightarrow> msg_inv m (return_to_caller i msg r s) = msg_inv m s"
  by (simp add: return_to_caller_def addMqMessageTaskToQueue_def Let_def enqueue_other set_pc_other)

lemma check_other:
  "i \<noteq> m \<Longrightarrow> msg_inv m (check_height i msg s) = msg_inv m s"
  by (simp add: check_height_def return_other set_pc_other lock_other)

lemma arrival_other:
  "i \<noteq> m \<Longrightarrow> msg_inv m (s\<lparr> arrivals := (arrivals s)(i \<mapsto> a) \<rparr>) = msg_inv m s"
  by (rule msg_inv_cong) simp_all

lemma awaiting_le_ranges:
  assumes "env_inv s"
  shows "occ (covers x) (awaitingIds s) \<le> occ (covers x) (sweepRanges s)"
  using assms by (simp add: env_inv_def)

lemma check_mine:
  assumes env: "env_inv s"
    and arr: "arrivals s m = Some \<lparr> ar_message = msg, ar_pc = AwaitHasSeenChain \<rparr>"
    and pr: "pristine m s"
  shows "msg_inv m (check_height m msg s)"
proof (cases "tm_latestBlockHeight s \<le> height msg")
  case True
  define s' where "s' = check_height m msg s"
  have eq: "s' = set_pc m (AwaitPersist False False)
             (s\<lparr> messageProcessLock := insert m (messageProcessLock s) \<rparr>)"
    using True by (simp add: s'_def check_height_def)
  have arr': "arrivals s' m = Some \<lparr> ar_message = msg, ar_pc = AwaitPersist False False \<rparr>"
    by (simp add: eq set_pc_arrivals arr)
  from pr awaiting_le_ranges [OF env, of "height msg"]
  have "common m msg s'" "phase m msg (AwaitPersist False False) s'"
    by (simp_all add: eq inv_defs)
  then show ?thesis
    unfolding s'_def [symmetric] by (simp add: msg_inv_def arr')
next
  case False
  define s' where "s' = check_height m msg s"
  have eq: "s' = enqueue m msg ReleaseLock (set_pc m (Resolved True) s)"
    using False by (simp add: s'_def check_height_def return_to_caller_def
          addMqMessageTaskToQueue_def Let_def)
  have arr': "arrivals s' m = Some \<lparr> ar_message = msg, ar_pc = Resolved True \<rparr>"
    by (simp add: eq set_pc_arrivals arr)
  from pr awaiting_le_ranges [OF env, of "height msg"] False
  have "common m msg s'" "phase m msg (Resolved True) s'"
    by (simp_all add: eq inv_defs)
  then show ?thesis
    unfolding s'_def [symmetric] by (simp add: msg_inv_def arr')
qed

lemma msg_inv_arrives:
  assumes env: "env_inv s" and inv: "msg_inv m s" and fresh: "i = m \<longrightarrow> arrivals s m = None"
  shows "msg_inv m (g_step (MessageArrives i msg) s)"
proof -
  define s1 where "s1 = s\<lparr> arrivals := (arrivals s)(i \<mapsto>
                     \<lparr> ar_message = msg, ar_pc = AwaitHasSeenChain \<rparr>) \<rparr>"
  have step: "g_step (MessageArrives i msg) s =
      (if tm_chainId s \<noteq> chain_id msg then s1 else check_height i msg s1)"
    by (simp add: handleMessageFromMqWithBlockWait_def Let_def s1_def)
  show ?thesis
  proof (cases "i = m")
    case False
    with inv show ?thesis
      unfolding step by (simp add: check_other s1_def arrival_other)
  next
    case True
    from inv fresh True have pr: "pristine m s" by (simp add: msg_inv_def)
    have pr1: "pristine m s1"
      using pr by (simp add: s1_def inv_defs)
    have arr1: "arrivals s1 m = Some \<lparr> ar_message = msg, ar_pc = AwaitHasSeenChain \<rparr>"
      by (simp add: s1_def True)
    have env1: "env_inv s1" using env by (simp add: s1_def env_inv_other)
    have c1: "common m msg s1"
      using pr1 awaiting_le_ranges [OF env1, of "height msg"]
      by (simp add: inv_defs)
    have "msg_inv m s1"
      using pr1 c1 by (simp add: msg_inv_def arr1)
    with check_mine [OF env1 arr1 pr1] show ?thesis
      using step True by simp
  qed
qed

lemma msg_inv_seen:
  assumes env: "env_inv s" and inv: "msg_inv m s"
  shows "msg_inv m (g_step (HasSeenChainSettled i seen) s)"
proof (cases "arrivals s i")
  case None
  with inv show ?thesis by simp
next
  case (Some a)
  show ?thesis
  proof (cases "ar_pc a = AwaitHasSeenChain")
    case False
    with inv Some show ?thesis by (simp split: g_pc.split)
  next
    case pc: True
    have step: "g_step (HasSeenChainSettled i seen) s =
        (if \<not> seen then set_pc i Rejected s else check_height i (ar_message a) s)"
      using Some pc by (simp add: on_hasSeenChain_def)
    show ?thesis
    proof (cases "i = m")
      case False
      with inv show ?thesis unfolding step by (simp add: check_other set_pc_other)
    next
      case True
      from inv Some True pc have pr: "pristine m s" and c: "common m (ar_message a) s"
        by (simp_all add: msg_inv_def)
      have arr: "arrivals s m = Some \<lparr> ar_message = ar_message a, ar_pc = AwaitHasSeenChain \<rparr>"
        using Some True pc by (cases a) simp
      have rej: "msg_inv m (set_pc m Rejected s)"
        using pr c by (simp add: msg_inv_def set_pc_arrivals arr inv_defs)
      from rej check_mine [OF env arr pr] show ?thesis
        using step True by simp
    qed
  qed
qed

lemma msg_invD:
  "msg_inv m s \<Longrightarrow> arrivals s m = Some a \<Longrightarrow>
   common m (ar_message a) s \<and> phase m (ar_message a) (ar_pc a) s"
  by (simp add: msg_inv_def)

lemma msg_invI:
  "arrivals s m = Some a \<Longrightarrow> common m (ar_message a) s \<Longrightarrow>
   phase m (ar_message a) (ar_pc a) s \<Longrightarrow> msg_inv m s"
  by (simp add: msg_inv_def)

lemma message_other:
  "i \<noteq> m \<Longrightarrow> msg_inv m (s\<lparr> messageFromMQ := (messageFromMQ s)(i := v) \<rparr>) = msg_inv m s"
  by (rule msg_inv_cong) simp_all

lemma index_add_other:
  "i \<noteq> m \<Longrightarrow> msg_inv m (s\<lparr> processAtBlock := processAtBlock s @ [(x, i)] \<rparr>) = msg_inv m s"
  by (rule msg_inv_cong) (simp_all add: mine_simps)

lemma remove_message_other:
  "i \<noteq> m \<Longrightarrow> msg_inv m (removeMessageFromMQ i s) = msg_inv m s"
  by (rule msg_inv_cong) simp_all

lemma remove_index_other:
  "i \<noteq> m \<Longrightarrow> msg_inv m (removeMessageIdToProcessAtBlock i s) = msg_inv m s"
  by (rule msg_inv_cong) (simp_all add: mine_simps)

lemma msg_inv_set_message:
  assumes inv: "msg_inv m s"
  shows "msg_inv m (g_step (DbSetMessage i) s)"
proof (cases "arrivals s i")
  case None
  with inv show ?thesis by simp
next
  case (Some a)
  show ?thesis
  proof (cases "\<exists>b. ar_pc a = AwaitPersist False b")
    case False
    with inv Some show ?thesis by (auto split: g_pc.split bool.split)
  next
    case True
    then obtain b where pc: "ar_pc a = AwaitPersist False b" ..
    have step: "g_step (DbSetMessage i) s = set_pc i (AwaitPersist True b)
        (s\<lparr> messageFromMQ := (messageFromMQ s)(i \<mapsto> ar_message a) \<rparr>)"
      using Some pc by simp
    show ?thesis
    proof (cases "i = m")
      case False
      with inv show ?thesis unfolding step by (simp add: set_pc_other message_other)
    next
      case True
      from msg_invD [OF inv Some [unfolded True]] pc
      have c: "common m (ar_message a) s" and p: "phase m (ar_message a) (AwaitPersist False b) s"
        by simp_all
      show ?thesis
        unfolding step unfolding True
        by (rule msg_invI [where a = "a\<lparr> ar_pc := AwaitPersist True b \<rparr>"])
           (use c p Some True in \<open>simp_all add: set_pc_arrivals inv_defs\<close>)
    qed
  qed
qed

lemma msg_inv_add_index:
  assumes inv: "msg_inv m s"
  shows "msg_inv m (g_step (DbAddIndex i) s)"
proof (cases "arrivals s i")
  case None
  with inv show ?thesis by simp
next
  case (Some a)
  show ?thesis
  proof (cases "\<exists>b. ar_pc a = AwaitPersist b False")
    case False
    with inv Some show ?thesis by (auto split: g_pc.split bool.split)
  next
    case True
    then obtain b where pc: "ar_pc a = AwaitPersist b False" ..
    have step: "g_step (DbAddIndex i) s = set_pc i (AwaitPersist b True)
        (s\<lparr> processAtBlock := processAtBlock s @ [(height (ar_message a), i)] \<rparr>)"
      using Some pc by simp
    show ?thesis
    proof (cases "i = m")
      case False
      with inv show ?thesis unfolding step by (simp add: set_pc_other index_add_other)
    next
      case True
      from msg_invD [OF inv Some [unfolded True]] pc
      have c: "common m (ar_message a) s" and p: "phase m (ar_message a) (AwaitPersist b False) s"
        by simp_all
      show ?thesis
        unfolding step unfolding True
        by (rule msg_invI [where a = "a\<lparr> ar_pc := AwaitPersist b True \<rparr>"])
           (use c p Some True in \<open>simp_all add: set_pc_arrivals inv_defs mine_simps\<close>)
    qed
  qed
qed

lemma msg_inv_persisted:
  assumes inv: "msg_inv m s"
  shows "msg_inv m (g_step (PersistSettled i) s)"
proof (cases "arrivals s i")
  case None
  with inv show ?thesis by simp
next
  case (Some a)
  show ?thesis
  proof (cases "ar_pc a = AwaitPersist True True")
    case False
    with inv Some show ?thesis by (auto split: g_pc.split bool.split)
  next
    case pc: True
    have step: "g_step (PersistSettled i) s =
        (if tm_latestBlockHeight s \<le> height (ar_message a)
         then set_pc i (Resolved False) (s\<lparr> messageProcessLock := messageProcessLock s - {i} \<rparr>)
         else set_pc i (AwaitRemove False False) s)"
      using Some pc by (simp add: on_persisted_def return_to_caller_def)
    show ?thesis
    proof (cases "i = m")
      case False
      with inv show ?thesis unfolding step by (simp add: set_pc_other lock_other)
    next
      case True
      from msg_invD [OF inv Some [unfolded True]] pc
      have c: "common m (ar_message a) s" and p: "phase m (ar_message a) (AwaitPersist True True) s"
        by simp_all
      show ?thesis
      proof (cases "tm_latestBlockHeight s \<le> height (ar_message a)")
        case le: True
        show ?thesis
          unfolding step unfolding True
          by (rule msg_invI [where a = "a\<lparr> ar_pc := Resolved False \<rparr>"])
             (use c p Some True le in \<open>simp_all add: set_pc_arrivals inv_defs\<close>)
      next
        case gt: False
        show ?thesis
          unfolding step unfolding True
          by (rule msg_invI [where a = "a\<lparr> ar_pc := AwaitRemove False False \<rparr>"])
             (use c p Some True gt in \<open>simp_all add: set_pc_arrivals inv_defs\<close>)
      qed
    qed
  qed
qed

lemma msg_inv_remove_message:
  assumes inv: "msg_inv m s"
  shows "msg_inv m (g_step (DbRemoveMessage i) s)"
proof (cases "arrivals s i")
  case None
  with inv show ?thesis by simp
next
  case (Some a)
  show ?thesis
  proof (cases "\<exists>b. ar_pc a = AwaitRemove False b")
    case False
    with inv Some show ?thesis by (auto split: g_pc.split bool.split)
  next
    case True
    then obtain b where pc: "ar_pc a = AwaitRemove False b" ..
    have step: "g_step (DbRemoveMessage i) s =
        set_pc i (AwaitRemove True b) (removeMessageFromMQ i s)"
      using Some pc by simp
    show ?thesis
    proof (cases "i = m")
      case False
      with inv show ?thesis unfolding step by (simp add: set_pc_other remove_message_other)
    next
      case True
      from msg_invD [OF inv Some [unfolded True]] pc
      have c: "common m (ar_message a) s" and p: "phase m (ar_message a) (AwaitRemove False b) s"
        by simp_all
      show ?thesis
        unfolding step unfolding True
        by (rule msg_invI [where a = "a\<lparr> ar_pc := AwaitRemove True b \<rparr>"])
           (use c p Some True in \<open>simp_all add: set_pc_arrivals inv_defs\<close>)
    qed
  qed
qed

lemma msg_inv_remove_index:
  assumes inv: "msg_inv m s"
  shows "msg_inv m (g_step (DbRemoveIndex i) s)"
proof (cases "arrivals s i")
  case None
  with inv show ?thesis by simp
next
  case (Some a)
  show ?thesis
  proof (cases "\<exists>b. ar_pc a = AwaitRemove b False")
    case False
    with inv Some show ?thesis by (auto split: g_pc.split bool.split)
  next
    case True
    then obtain b where pc: "ar_pc a = AwaitRemove b False" ..
    have step: "g_step (DbRemoveIndex i) s =
        set_pc i (AwaitRemove b True) (removeMessageIdToProcessAtBlock i s)"
      using Some pc by simp
    show ?thesis
    proof (cases "i = m")
      case False
      with inv show ?thesis unfolding step by (simp add: set_pc_other remove_index_other)
    next
      case True
      from msg_invD [OF inv Some [unfolded True]] pc
      have c: "common m (ar_message a) s" and p: "phase m (ar_message a) (AwaitRemove b False) s"
        by simp_all
      show ?thesis
        unfolding step unfolding True
        by (rule msg_invI [where a = "a\<lparr> ar_pc := AwaitRemove b True \<rparr>"])
           (use c p Some True in \<open>simp_all add: set_pc_arrivals inv_defs mine_simps\<close>)
    qed
  qed
qed

lemma msg_inv_removed:
  assumes inv: "msg_inv m s"
  shows "msg_inv m (g_step (RemoveSettled i) s)"
proof (cases "arrivals s i")
  case None
  with inv show ?thesis by simp
next
  case (Some a)
  show ?thesis
  proof (cases "ar_pc a = AwaitRemove True True")
    case False
    with inv Some show ?thesis by (auto split: g_pc.split bool.split)
  next
    case pc: True
    have step: "g_step (RemoveSettled i) s =
        enqueue i (ar_message a) ReleaseLock (set_pc i (Resolved True) s)"
      using Some pc by (simp add: return_to_caller_def addMqMessageTaskToQueue_def Let_def)
    show ?thesis
    proof (cases "i = m")
      case False
      with inv show ?thesis unfolding step by (simp add: set_pc_other enqueue_other)
    next
      case True
      from msg_invD [OF inv Some [unfolded True]] pc
      have c: "common m (ar_message a) s" and p: "phase m (ar_message a) (AwaitRemove True True) s"
        by simp_all
      show ?thesis
        unfolding step unfolding True
        by (rule msg_invI [where a = "a\<lparr> ar_pc := Resolved True \<rparr>"])
           (use c p Some True in \<open>simp_all add: set_pc_arrivals inv_defs\<close>)
    qed
  qed
qed

lemma msg_inv_preserve:
  assumes inv: "msg_inv m s" and arr: "arrivals s' m = arrivals s m"
    and P: "pristine m s \<Longrightarrow> arrivals s m = None \<Longrightarrow> pristine m s'"
    and C: "\<And>a. arrivals s m = Some a \<Longrightarrow> common m (ar_message a) s \<Longrightarrow>
              phase m (ar_message a) (ar_pc a) s \<Longrightarrow>
              common m (ar_message a) s' \<and> phase m (ar_message a) (ar_pc a) s'"
  shows "msg_inv m s'"
proof (cases "arrivals s m")
  case None
  with inv P show ?thesis by (simp add: msg_inv_def arr)
next
  case (Some a)
  from msg_invD [OF inv Some] C [OF Some] show ?thesis
    by (simp add: msg_inv_def arr Some)
qed

lemma no_range_covers:
  assumes env: "env_inv s" and "tm_latestBlockHeight s \<le> x"
  shows "occ (covers x) (sweepRanges s) = 0"
  unfolding occ_zero_iff using assms by (fastforce simp: env_inv_def covers_def)

lemma range_le1:
  assumes env: "env_inv s"
  shows "occ (covers x) (sweepRanges s) \<le> 1"
  using assms by (simp add: env_inv_def)

lemma msg_inv_new_block:
  assumes env: "env_inv s" and inv: "msg_inv m s"
  shows "msg_inv m (g_step (NewBlock new) s)"
proof (cases "tm_latestBlockHeight s < new")
  case False
  with inv show ?thesis by (simp add: new_block_def)
next
  case True
  define r where "r = (tm_latestBlockHeight s, new - 1)"
  define s' where "s' = g_step (NewBlock new) s"
  have f: "tm_latestBlockHeight s' = new" "sweepRanges s' = sweepRanges s @ [r]"
    "awaitingIds s' = awaitingIds s @ [r]" "arrivals s' = arrivals s"
    "messageProcessLock s' = messageProcessLock s" "messageFromMQ s' = messageFromMQ s"
    "cleanupMessage s' = cleanupMessage s" "cleanupIndex s' = cleanupIndex s"
    using True by (simp_all add: s'_def new_block_def r_def)
  have q: "mine m s' = mine m s" "snapc m s' = snapc m s" "itemc m s' = itemc m s"
    "direct_adm m s' = direct_adm m s" "sweep_adm m s' = sweep_adm m s"
    using True by (simp_all add: s'_def new_block_def mine_def counts)
  have ins: "in_sweep m h s' = in_sweep m h s + (if covers h r then 1 else 0)" for h
    by (simp add: in_sweep_alt f q)
  show ?thesis
    unfolding s'_def [symmetric]
  proof (rule msg_inv_preserve [OF inv])
    show "arrivals s' m = arrivals s m" by (simp add: f)
    show "pristine m s'" if "pristine m s" using that by (simp add: pristine_def f q admissions_split)
    show "common m (ar_message a) s' \<and> phase m (ar_message a) (ar_pc a) s'"
      if arr: "arrivals s m = Some a" and c: "common m (ar_message a) s"
        and p: "phase m (ar_message a) (ar_pc a) s" for a
    proof
      from c show "common m (ar_message a) s'"
        by (simp add: common_def f q ins)
      define h where "h = height (ar_message a)"
      show "phase m (ar_message a) (ar_pc a) s'"
      proof (cases "ar_pc a")
        case (Resolved b)
        show ?thesis
        proof (cases b)
          case True
          with p Resolved \<open>tm_latestBlockHeight s < new\<close> show ?thesis by (simp add: f q)
        next
          case False
          from p Resolved False have lock: "m \<notin> messageProcessLock s" and d: "direct_adm m s = 0"
            and rec: "sweep_adm m s = 0 \<longrightarrow> messageFromMQ s m = Some (ar_message a) \<and> length (mine m s) = 1"
            and k: "h < tm_latestBlockHeight s \<longrightarrow> in_sweep m h s = 1"
            by (simp_all add: h_def)
          have "in_sweep m h s' = 1" if "h < new"
          proof (cases "h < tm_latestBlockHeight s")
            case True
            then have "\<not> covers h r" by (simp add: covers_def r_def)
            with k True show ?thesis by (simp add: ins)
          next
            case False
            then have le: "tm_latestBlockHeight s \<le> h" by simp
            from c no_range_covers [OF env le] have "in_sweep m h s = 0"
              by (simp add: common_def h_def)
            moreover from le that have "covers h r" by (simp add: covers_def r_def)
            ultimately show ?thesis by (simp add: ins)
          qed
          with lock d rec Resolved False show ?thesis
            by (simp add: f q h_def)
        qed
      next
        case (AwaitRemove r1 r2)
        with p \<open>tm_latestBlockHeight s < new\<close> show ?thesis
          by (simp add: f q admissions_split)
      next
        case (AwaitPersist w1 w2)
        with p show ?thesis by (simp add: f q admissions_split)
      next
        case AwaitHasSeenChain
        with p show ?thesis by (simp add: pristine_def f q admissions_split)
      next
        case Rejected
        with p show ?thesis by (simp add: pristine_def f q admissions_split)
      qed
    qed
  qed
qed

lemma msg_inv_answered:
  assumes env: "env_inv s" and inv: "msg_inv m s"
  shows "msg_inv m (g_step (IdsAnswered n) s)"
proof (cases "n < length (awaitingIds s)")
  case False
  with inv show ?thesis by simp
next
  case n: True
  define r where "r = awaitingIds s ! n"
  define ids where "ids = getMessageIdsToProcessAtBlock (fst r) (snd r) s"
  define s' where "s' = g_step (IdsAnswered n) s"
  have f: "tm_latestBlockHeight s' = tm_latestBlockHeight s" "sweepRanges s' = sweepRanges s"
    "awaitingIds s' = drop_nth n (awaitingIds s)" "arrivals s' = arrivals s"
    "messageProcessLock s' = messageProcessLock s" "messageFromMQ s' = messageFromMQ s"
    "cleanupMessage s' = cleanupMessage s" "cleanupIndex s' = cleanupIndex s"
    using n by (simp_all add: s'_def)
  have q: "mine m s' = mine m s" "snapc m s' = snapc m s + occ (\<lambda>j. j = m) ids"
    "itemc m s' = itemc m s"
    "direct_adm m s' = direct_adm m s" "sweep_adm m s' = sweep_adm m s"
    using n by (simp_all add: s'_def mine_def counts ids_def r_def
          getMessageIdsToProcessAtBlock_def)
  have aw: "occ (covers h) (awaitingIds s') + (if covers h r then 1 else 0)
      = occ (covers h) (awaitingIds s)" for h
    unfolding f r_def by (rule occ_drop_nth [OF n])
  have cnt: "occ (\<lambda>j. j = m) ids = (if covers h r then length (mine m s) else 0)"
    if "\<forall>e \<in> set (mine m s). fst e = h" for h
    unfolding ids_def using ids_count_mine [OF that, of "fst r" "snd r"] by simp
  show ?thesis
    unfolding s'_def [symmetric]
  proof (rule msg_inv_preserve [OF inv])
    show "arrivals s' m = arrivals s m" by (simp add: f)
    show "pristine m s'" if pr: "pristine m s"
    proof -
      from pr have "mine m s = []" by (simp add: pristine_def)
      then have "occ (\<lambda>j. j = m) ids = 0" using cnt [of 0] by simp
      with pr show ?thesis by (simp add: pristine_def f q admissions_split)
    qed
    show "common m (ar_message a) s' \<and> phase m (ar_message a) (ar_pc a) s'"
      if arr: "arrivals s m = Some a" and c: "common m (ar_message a) s"
        and p: "phase m (ar_message a) (ar_pc a) s" for a
    proof
      define h where "h = height (ar_message a)"
      from c have hs: "\<forall>e \<in> set (mine m s). fst e = h" and l1: "length (mine m s) \<le> 1"
        and tok: "in_sweep m h s \<le> occ (covers h) (sweepRanges s)"
        and cl: "m \<in> set (cleanupMessage s) \<or> m \<in> set (cleanupIndex s) \<longrightarrow> 1 \<le> sweep_adm m s"
        by (simp_all add: common_def h_def)
      note cn = cnt [OF hs]
      have ins: "in_sweep m h s' + (if covers h r then 1 else 0)
          = in_sweep m h s + (if covers h r then length (mine m s) else 0)"
        using aw [of h] by (simp add: in_sweep_alt q cn)
      with l1 tok have tok': "in_sweep m h s' \<le> occ (covers h) (sweepRanges s')"
        by (simp add: f split: if_splits)
      with hs l1 cl show "common m (ar_message a) s'"
        by (simp add: common_def f q h_def)
      show "phase m (ar_message a) (ar_pc a) s'"
      proof (cases "ar_pc a")
        case (Resolved b)
        show ?thesis
        proof (cases b)
          case True
          with p Resolved show ?thesis by (simp add: f q)
        next
          case False
          from p Resolved False have lock: "m \<notin> messageProcessLock s" and d: "direct_adm m s = 0"
            and rec: "sweep_adm m s = 0 \<longrightarrow> messageFromMQ s m = Some (ar_message a) \<and> length (mine m s) = 1"
            and k: "h < tm_latestBlockHeight s \<longrightarrow> in_sweep m h s = 1"
            by (simp_all add: h_def)
          have "in_sweep m h s' = 1" if lt: "h < tm_latestBlockHeight s"
          proof (cases "covers h r")
            case False
            with ins k lt show ?thesis by simp
          next
            case True
            with aw [of h] have "1 \<le> occ (covers h) (awaitingIds s)" by simp
            with k lt have "sweep_adm m s = 0" by (simp add: in_sweep_alt)
            with rec have "length (mine m s) = 1" by simp
            with ins k lt True show ?thesis by simp
          qed
          with lock d rec Resolved False show ?thesis
            by (simp add: f q h_def)
        qed
      next
        case (AwaitRemove r1 r2)
        with p show ?thesis by (simp add: f q admissions_split)
      next
        case (AwaitPersist w1 w2)
        with p show ?thesis by (simp add: f q admissions_split)
      next
        case AwaitHasSeenChain
        with p have pr: "pristine m s" by simp
        then have "mine m s = []" by (simp add: pristine_def)
        with cn have "occ (\<lambda>j. j = m) ids = 0" by simp
        with pr AwaitHasSeenChain show ?thesis by (simp add: pristine_def f q admissions_split)
      next
        case Rejected
        with p have pr: "pristine m s" by simp
        then have "mine m s = []" by (simp add: pristine_def)
        with cn have "occ (\<lambda>j. j = m) ids = 0" by simp
        with pr Rejected show ?thesis by (simp add: pristine_def f q admissions_split)
      qed
    qed
  qed
qed

lemma occ_filter_lock:
  "occ (\<lambda>j. j = m) (filter (\<lambda>i. i \<notin> L) ids) = (if m \<in> L then 0 else occ (\<lambda>j. j = m) ids)"
  by (induction ids) auto

lemma msg_inv_ids_settled:
  assumes env: "env_inv s" and inv: "msg_inv m s"
  shows "msg_inv m (g_step (IdsSettled n) s)"
proof (cases "n < length (idsRead s)")
  case False
  with inv show ?thesis by simp
next
  case n: True
  define ids where "ids = idsRead s ! n"
  define s' where "s' = g_step (IdsSettled n) s"
  have f: "tm_latestBlockHeight s' = tm_latestBlockHeight s" "sweepRanges s' = sweepRanges s"
    "awaitingIds s' = awaitingIds s" "arrivals s' = arrivals s"
    "messageProcessLock s' = messageProcessLock s" "messageFromMQ s' = messageFromMQ s"
    "cleanupMessage s' = cleanupMessage s" "cleanupIndex s' = cleanupIndex s"
    using n by (simp_all add: s'_def processMessageInBlocks_resume_def)
  have q: "mine m s' = mine m s"
    "itemc m s' = itemc m s + (if m \<in> messageProcessLock s then 0 else occ (\<lambda>j. j = m) ids)"
    "direct_adm m s' = direct_adm m s" "sweep_adm m s' = sweep_adm m s"
    using n by (simp_all add: s'_def mine_def counts ids_def processMessageInBlocks_resume_def
          occ_filter_lock)
  have sn: "snapc m s' + occ (\<lambda>j. j = m) ids = snapc m s"
    using n sum_drop_nth [OF n, of "occ (\<lambda>j. j = m)"]
    by (simp add: s'_def counts ids_def processMessageInBlocks_resume_def)
  have ins: "in_sweep m h s' \<le> in_sweep m h s"
    "m \<notin> messageProcessLock s \<Longrightarrow> in_sweep m h s' = in_sweep m h s" for h
    using sn by (simp_all add: in_sweep_alt f q)
  show ?thesis
    unfolding s'_def [symmetric]
  proof (rule msg_inv_preserve [OF inv])
    show "arrivals s' m = arrivals s m" by (simp add: f)
    show "pristine m s'" if pr: "pristine m s"
      using pr sn by (simp add: pristine_def f q admissions_split)
    show "common m (ar_message a) s' \<and> phase m (ar_message a) (ar_pc a) s'"
      if arr: "arrivals s m = Some a" and c: "common m (ar_message a) s"
        and p: "phase m (ar_message a) (ar_pc a) s" for a
    proof
      from c ins(1) [of "height (ar_message a)"] show "common m (ar_message a) s'"
        by (simp add: common_def f q)
      show "phase m (ar_message a) (ar_pc a) s'"
      proof (cases "ar_pc a")
        case (Resolved b)
        show ?thesis
        proof (cases b)
          case True
          with p Resolved show ?thesis by (simp add: f q)
        next
          case False
          with p Resolved ins(2) [of "height (ar_message a)"] show ?thesis
            by (simp add: f q)
        qed
      next
        case (AwaitRemove r1 r2)
        with p show ?thesis by (simp add: f q admissions_split)
      next
        case (AwaitPersist w1 w2)
        with p show ?thesis by (simp add: f q admissions_split)
      next
        case AwaitHasSeenChain
        with p sn show ?thesis by (simp add: pristine_def f q admissions_split)
      next
        case Rejected
        with p sn show ?thesis by (simp add: pristine_def f q admissions_split)
      qed
    qed
  qed
qed

lemma msg_inv_item:
  assumes env: "env_inv s" and inv: "msg_inv m s"
  shows "msg_inv m (g_step (ItemSettled n) s)"
proof (cases "n < length (items s)")
  case False
  with inv show ?thesis by simp
next
  case n: True
  define i where "i = items s ! n"
  define s0 where "s0 = s\<lparr> items := drop_nth n (items s) \<rparr>"
  have step: "g_step (ItemSettled n) s = process_item i s0"
    using n by (simp add: i_def s0_def)
  have it: "itemc m s0 + (if i = m then 1 else 0) = itemc m s"
    using occ_drop_nth [OF n, of "\<lambda>j. j = m"] by (simp add: s0_def itemc_def i_def)
  have q0: "mine m s0 = mine m s" "snapc m s0 = snapc m s"
    "direct_adm m s0 = direct_adm m s" "sweep_adm m s0 = sweep_adm m s"
    by (simp_all add: s0_def mine_def counts)
  have f0: "tm_latestBlockHeight s0 = tm_latestBlockHeight s" "sweepRanges s0 = sweepRanges s"
    "awaitingIds s0 = awaitingIds s" "arrivals s0 = arrivals s"
    "messageProcessLock s0 = messageProcessLock s" "messageFromMQ s0 = messageFromMQ s"
    "cleanupMessage s0 = cleanupMessage s" "cleanupIndex s0 = cleanupIndex s"
    by (simp_all add: s0_def)
  show ?thesis
  proof (cases "i = m")
    case False
    have "msg_inv m (process_item i s0) = msg_inv m s0"
      using False by (simp add: process_item_def enqueue_other split: option.split)
    also have "\<dots> = msg_inv m s"
      by (rule msg_inv_cong) (use it False in \<open>simp_all add: q0 f0\<close>)
    finally show ?thesis unfolding step using inv by simp
  next
    case True
    from it True have pos: "1 \<le> itemc m s" by simp
    define s' where "s' = process_item m s0"
    have f: "tm_latestBlockHeight s' = tm_latestBlockHeight s" "sweepRanges s' = sweepRanges s"
      "awaitingIds s' = awaitingIds s" "arrivals s' = arrivals s"
      "messageProcessLock s' = messageProcessLock s" "messageFromMQ s' = messageFromMQ s"
      "cleanupMessage s' = cleanupMessage s" "cleanupIndex s' = cleanupIndex s"
      by (simp_all add: s'_def process_item_def f0 split: option.split)
    have q: "mine m s' = mine m s" "snapc m s' = snapc m s" "direct_adm m s' = direct_adm m s"
      "itemc m s' + 1 = itemc m s"
      "sweep_adm m s' = sweep_adm m s + (if messageFromMQ s m = None then 0 else 1)"
      using it True by (simp_all add: s'_def process_item_def q0 f0 split: option.split)
    show ?thesis
      unfolding step unfolding True s'_def [symmetric]
    proof (rule msg_inv_preserve [OF inv])
      show "arrivals s' m = arrivals s m" by (simp add: f)
      show "pristine m s'" if pr: "pristine m s"
        using pr pos by (simp add: pristine_def)
      show "common m (ar_message a) s' \<and> phase m (ar_message a) (ar_pc a) s'"
        if arr: "arrivals s m = Some a" and c: "common m (ar_message a) s"
          and p: "phase m (ar_message a) (ar_pc a) s" for a
      proof -
        define h where "h = height (ar_message a)"
        from c have tok: "in_sweep m h s \<le> occ (covers h) (sweepRanges s)"
          by (simp add: common_def h_def)
        with range_le1 [OF env, of h] have le1: "in_sweep m h s \<le> 1" by simp
        with pos have one: "itemc m s = 1" "sweep_adm m s = 0" "snapc m s = 0"
          "occ (covers h) (awaitingIds s) = 0" "in_sweep m h s = 1"
          by (simp_all add: in_sweep_alt)
        show ?thesis
        proof (cases "ar_pc a")
          case (Resolved b)
          show ?thesis
          proof (cases b)
            case True
            with p Resolved have none: "messageFromMQ s m = None" by simp
            with q have same: "sweep_adm m s' = sweep_adm m s" by simp
            have "in_sweep m h s' \<le> in_sweep m h s"
              using q(4) by (simp add: in_sweep_alt f q(1-3) same)
            with c p Resolved True tok show ?thesis
              unfolding h_def by (simp add: common_def f q(1-3) same)
          next
            case False
            from p Resolved False one have msg: "messageFromMQ s m = Some (ar_message a)"
              by simp
            with q have adm: "sweep_adm m s' = 1" using one by simp
            have ins: "in_sweep m h s' = in_sweep m h s"
              using q(4) one adm by (simp add: in_sweep_alt f q(1-3))
            from c p Resolved False tok [unfolded h_def] ins [unfolded h_def]
              one(5) [unfolded h_def] one(2)
            show ?thesis
              by (simp add: common_def f q(1-3) adm)
          qed
        next
          case (AwaitRemove r1 r2)
          with p pos show ?thesis by simp
        next
          case (AwaitPersist w1 w2)
          with p pos show ?thesis by simp
        next
          case AwaitHasSeenChain
          with p pos show ?thesis by (simp add: pristine_def)
        next
          case Rejected
          with p pos show ?thesis by (simp add: pristine_def)
        qed
      qed
    qed
  qed
qed

lemma in_drop_nth_other:
  "n < length xs \<Longrightarrow> xs ! n \<noteq> m \<Longrightarrow> (m \<in> set (drop_nth n xs)) = (m \<in> set xs)"
proof (induction xs arbitrary: n)
  case Nil
  then show ?case by simp
next
  case (Cons x xs)
  show ?case
  proof (cases n)
    case 0
    with Cons.prems show ?thesis by (auto simp: drop_nth_def)
  next
    case (Suc j)
    with Cons.prems Cons.IH [of j] show ?thesis by (auto simp: drop_nth_def)
  qed
qed

lemma adm_pos:
  assumes "c \<in> set (queueCalls s)" "qc_messageId c = m"
  shows "qc_handler c = ReleaseLock \<Longrightarrow> 1 \<le> direct_adm m s"
    and "qc_handler c = ReleaseLockAndCleanUp \<Longrightarrow> 1 \<le> sweep_adm m s"
proof -
  have "1 \<le> occ P xs" if "x \<in> set xs" "P x" for P and x :: queue_call and xs
    using that by (induction xs) auto
  from this [OF assms(1)] assms(2)
  show "qc_handler c = ReleaseLock \<Longrightarrow> 1 \<le> direct_adm m s"
    and "qc_handler c = ReleaseLockAndCleanUp \<Longrightarrow> 1 \<le> sweep_adm m s"
    by (simp_all add: direct_adm_def sweep_adm_def)
qed

lemma msg_inv_finished:
  assumes env: "env_inv s" and inv: "msg_inv m s"
  shows "msg_inv m (g_step (TaskFinished n) s)"
proof (cases "n < length (unfinished s)")
  case False
  with inv show ?thesis by simp
next
  case n: True
  define c where "c = unfinished s ! n"
  define i where "i = qc_messageId c"
  define s' where "s' = g_step (TaskFinished n) s"
  from n env have mem: "c \<in> set (queueCalls s)"
    by (auto simp: c_def env_inv_def)
  have f: "tm_latestBlockHeight s' = tm_latestBlockHeight s" "sweepRanges s' = sweepRanges s"
    "awaitingIds s' = awaitingIds s" "arrivals s' = arrivals s"
    "messageProcessLock s' = messageProcessLock s - {i}" "messageFromMQ s' = messageFromMQ s"
    "cleanupMessage s' = cleanupMessage s @
       (if qc_handler c = ReleaseLockAndCleanUp then [i] else [])"
    "cleanupIndex s' = cleanupIndex s @
       (if qc_handler c = ReleaseLockAndCleanUp then [i] else [])"
    using n by (simp_all add: s'_def c_def [symmetric] i_def run_handler_def releaseLock_def
          releaseLockAndCleanUp_def cleanUpMessage_def split: handler.split)
  have q: "mine m s' = mine m s" "snapc m s' = snapc m s" "itemc m s' = itemc m s"
    "direct_adm m s' = direct_adm m s" "sweep_adm m s' = sweep_adm m s"
    using n by (simp_all add: s'_def mine_def counts run_handler_def releaseLock_def
          releaseLockAndCleanUp_def cleanUpMessage_def split: handler.split)
  show ?thesis
  proof (cases "i = m")
    case False
    have "msg_inv m s' = msg_inv m s"
      by (rule msg_inv_cong) (use False in \<open>simp_all add: f q\<close>)
    with inv show ?thesis by (simp add: s'_def)
  next
    case True
    with i_def have id: "qc_messageId c = m" by simp
    note pos = adm_pos [OF mem id]
    have ins: "in_sweep m h s' = in_sweep m h s" for h
      by (simp add: in_sweep_alt f q)
    show ?thesis
      unfolding s'_def [symmetric]
    proof (rule msg_inv_preserve [OF inv])
      show "arrivals s' m = arrivals s m" by (simp add: f)
      show "pristine m s'" if pr: "pristine m s"
        using pr pos by (cases "qc_handler c") (simp_all add: pristine_def admissions_split)
      show "common m (ar_message a) s' \<and> phase m (ar_message a) (ar_pc a) s'"
        if arr: "arrivals s m = Some a" and cm: "common m (ar_message a) s"
          and p: "phase m (ar_message a) (ar_pc a) s" for a
      proof
        from cm pos show "common m (ar_message a) s'"
          by (cases "qc_handler c") (simp_all add: common_def f q ins True)
        show "phase m (ar_message a) (ar_pc a) s'"
        proof (cases "ar_pc a")
          case (Resolved b)
          with p ins [of "height (ar_message a)"] show ?thesis
            by (cases b) (simp_all add: f q)
        next
          case (AwaitRemove r1 r2)
          with p pos show ?thesis
            by (cases "qc_handler c") (simp_all add: admissions_split)
        next
          case (AwaitPersist w1 w2)
          with p pos show ?thesis
            by (cases "qc_handler c") (simp_all add: admissions_split)
        next
          case AwaitHasSeenChain
          with p pos show ?thesis
            by (cases "qc_handler c") (simp_all add: pristine_def admissions_split)
        next
          case Rejected
          with p pos show ?thesis
            by (cases "qc_handler c") (simp_all add: pristine_def admissions_split)
        qed
      qed
    qed
  qed
qed

lemma msg_inv_cleanup_message:
  assumes inv: "msg_inv m s"
  shows "msg_inv m (g_step (CleanupMessageDone n) s)"
proof (cases "n < length (cleanupMessage s)")
  case False
  with inv show ?thesis by simp
next
  case n: True
  define i where "i = cleanupMessage s ! n"
  define s' where "s' = g_step (CleanupMessageDone n) s"
  have f: "tm_latestBlockHeight s' = tm_latestBlockHeight s" "sweepRanges s' = sweepRanges s"
    "awaitingIds s' = awaitingIds s" "arrivals s' = arrivals s"
    "messageProcessLock s' = messageProcessLock s"
    "messageFromMQ s' = (messageFromMQ s)(i := None)"
    "cleanupMessage s' = drop_nth n (cleanupMessage s)"
    "cleanupIndex s' = cleanupIndex s"
    using n by (simp_all add: s'_def i_def)
  have q: "mine m s' = mine m s" "snapc m s' = snapc m s" "itemc m s' = itemc m s"
    "direct_adm m s' = direct_adm m s" "sweep_adm m s' = sweep_adm m s"
    using n by (simp_all add: s'_def mine_def counts removeMessageFromMQ_def)
  have sub: "m \<in> set (cleanupMessage s') \<Longrightarrow> m \<in> set (cleanupMessage s)"
    using set_drop_nth [of n "cleanupMessage s"] by (auto simp: f)
  show ?thesis
  proof (cases "i = m")
    case False
    have "msg_inv m s' = msg_inv m s"
      by (rule msg_inv_cong)
         (use False n in \<open>simp_all add: f q in_drop_nth_other i_def\<close>)
    with inv show ?thesis by (simp add: s'_def)
  next
    case True
    with n have mem: "m \<in> set (cleanupMessage s)" by (auto simp: i_def)
    have ins: "in_sweep m h s' = in_sweep m h s" for h
      by (simp add: in_sweep_alt f q)
    show ?thesis
      unfolding s'_def [symmetric]
    proof (rule msg_inv_preserve [OF inv])
      show "arrivals s' m = arrivals s m" by (simp add: f)
      show "pristine m s'" if pr: "pristine m s"
        using pr mem by (simp add: pristine_def)
      show "common m (ar_message a) s' \<and> phase m (ar_message a) (ar_pc a) s'"
        if arr: "arrivals s m = Some a" and cm: "common m (ar_message a) s"
          and p: "phase m (ar_message a) (ar_pc a) s" for a
      proof
        from cm mem have pos: "1 \<le> sweep_adm m s" by (simp add: common_def)
        from cm sub show "common m (ar_message a) s'"
          by (auto simp: common_def f q ins)
        show "phase m (ar_message a) (ar_pc a) s'"
        proof (cases "ar_pc a")
          case (Resolved b)
          with p pos ins [of "height (ar_message a)"] show ?thesis
            by (cases b) (simp_all add: f q)
        next
          case (AwaitRemove r1 r2)
          with p pos show ?thesis by (simp add: admissions_split)
        next
          case (AwaitPersist w1 w2)
          with p pos show ?thesis by (simp add: admissions_split)
        next
          case AwaitHasSeenChain
          with p pos show ?thesis by (simp add: pristine_def admissions_split)
        next
          case Rejected
          with p pos show ?thesis by (simp add: pristine_def admissions_split)
        qed
      qed
    qed
  qed
qed

lemma msg_inv_cleanup_index:
  assumes inv: "msg_inv m s"
  shows "msg_inv m (g_step (CleanupIndexDone n) s)"
proof (cases "n < length (cleanupIndex s)")
  case False
  with inv show ?thesis by simp
next
  case n: True
  define i where "i = cleanupIndex s ! n"
  define s' where "s' = g_step (CleanupIndexDone n) s"
  have f: "tm_latestBlockHeight s' = tm_latestBlockHeight s" "sweepRanges s' = sweepRanges s"
    "awaitingIds s' = awaitingIds s" "arrivals s' = arrivals s"
    "messageProcessLock s' = messageProcessLock s"
    "messageFromMQ s' = messageFromMQ s"
    "cleanupMessage s' = cleanupMessage s"
    "cleanupIndex s' = drop_nth n (cleanupIndex s)"
    using n by (simp_all add: s'_def i_def)
  have q: "mine m s' = (if i = m then [] else mine m s)"
    "snapc m s' = snapc m s" "itemc m s' = itemc m s"
    "direct_adm m s' = direct_adm m s" "sweep_adm m s' = sweep_adm m s"
  proof -
    have m0: "mine m (x\<lparr> cleanupIndex := y \<rparr>) = mine m x" for x y
      by (simp add: mine_def)
    show "mine m s' = (if i = m then [] else mine m s)"
      using n by (simp add: s'_def i_def [symmetric] m0 mine_simps)
    show "snapc m s' = snapc m s" "itemc m s' = itemc m s"
      "direct_adm m s' = direct_adm m s" "sweep_adm m s' = sweep_adm m s"
      using n by (simp_all add: s'_def counts removeMessageIdToProcessAtBlock_def)
  qed
  have sub: "m \<in> set (cleanupIndex s') \<Longrightarrow> m \<in> set (cleanupIndex s)"
    using set_drop_nth [of n "cleanupIndex s"] by (auto simp: f)
  show ?thesis
  proof (cases "i = m")
    case False
    have "msg_inv m s' = msg_inv m s"
      by (rule msg_inv_cong)
         (use False n in \<open>simp_all add: f q in_drop_nth_other i_def\<close>)
    with inv show ?thesis by (simp add: s'_def)
  next
    case True
    with n have mem: "m \<in> set (cleanupIndex s)" by (auto simp: i_def)
    have ins: "in_sweep m h s' = in_sweep m h s" for h
      by (simp add: in_sweep_alt f q)
    show ?thesis
      unfolding s'_def [symmetric]
    proof (rule msg_inv_preserve [OF inv])
      show "arrivals s' m = arrivals s m" by (simp add: f)
      show "pristine m s'" if pr: "pristine m s"
        using pr mem by (simp add: pristine_def)
      show "common m (ar_message a) s' \<and> phase m (ar_message a) (ar_pc a) s'"
        if arr: "arrivals s m = Some a" and cm: "common m (ar_message a) s"
          and p: "phase m (ar_message a) (ar_pc a) s" for a
      proof
        from cm mem have pos: "1 \<le> sweep_adm m s" by (simp add: common_def)
        from cm sub True show "common m (ar_message a) s'"
          by (auto simp: common_def f q ins)
        show "phase m (ar_message a) (ar_pc a) s'"
        proof (cases "ar_pc a")
          case (Resolved b)
          with p pos ins [of "height (ar_message a)"] show ?thesis
            by (cases b) (simp_all add: f q)
        next
          case (AwaitRemove r1 r2)
          with p pos show ?thesis by (simp add: admissions_split)
        next
          case (AwaitPersist w1 w2)
          with p pos show ?thesis by (simp add: admissions_split)
        next
          case AwaitHasSeenChain
          with p pos show ?thesis by (simp add: pristine_def admissions_split)
        next
          case Rejected
          with p pos show ?thesis by (simp add: pristine_def admissions_split)
        qed
      qed
    qed
  qed
qed

lemma g_inv_arrives:
  "g_inv m s \<Longrightarrow> i = m \<longrightarrow> arrivals s m = None \<Longrightarrow> g_inv m (g_step (MessageArrives i msg) s)"
  unfolding g_inv_def by (simp only: env_inv_step msg_inv_arrives simp_thms)

lemma g_inv_step:
  "g_inv m s \<Longrightarrow> arrived [e] = [] \<Longrightarrow> g_inv m (g_step e s)"
  unfolding g_inv_def
  by (cases e)
     (simp_all only: env_inv_step msg_inv_seen msg_inv_set_message
        msg_inv_add_index msg_inv_persisted msg_inv_remove_message msg_inv_remove_index
        msg_inv_removed msg_inv_new_block msg_inv_answered msg_inv_ids_settled msg_inv_item
        msg_inv_finished msg_inv_cleanup_message msg_inv_cleanup_index simp_thms
        arrived.simps list.simps)

lemma step_keeps_unarrived:
  assumes "arrivals s m = None" "arrived [e] \<noteq> [m]"
  shows "arrivals (g_step e s) m = None"
proof (cases e)
  case (MessageArrives i msg)
  with assms show ?thesis
    by (simp add: handleMessageFromMqWithBlockWait_def check_height_def return_to_caller_def
          addMqMessageTaskToQueue_def Let_def set_pc_arrivals)
next
  case (TaskFinished n)
  with assms show ?thesis
    by (simp add: run_handler_def releaseLock_def releaseLockAndCleanUp_def cleanUpMessage_def
          split: handler.split)
qed (use assms in \<open>auto simp: on_hasSeenChain_def check_height_def on_persisted_def
      return_to_caller_def addMqMessageTaskToQueue_def Let_def set_pc_arrivals new_block_def
      processMessageInBlocks_resume_def process_item_def removeMessageFromMQ_def
      removeMessageIdToProcessAtBlock_def split: option.split g_pc.split bool.split\<close>)

lemma g_inv_run:
  assumes "g_inv m s" "distinct (arrived es)" "m \<in> set (arrived es) \<longrightarrow> arrivals s m = None"
  shows "g_inv m (g_run es s)"
  using assms
proof (induction es arbitrary: s)
  case Nil
  then show ?case by simp
next
  case (Cons e es)
  have d: "distinct (arrived es)"
    using Cons.prems(2) by (cases e) simp_all
  show ?case
  proof (cases "arrived [e] = [m]")
    case True
    then obtain msg where e: "e = MessageArrives m msg" by (cases e) simp_all
    with Cons.prems have "arrivals s m = None" "m \<notin> set (arrived es)" by simp_all
    with Cons.prems(1) Cons.IH [of "g_step e s"] d show ?thesis
      by (simp add: e g_inv_arrives del: g_step.simps)
  next
    case False
    have inv: "g_inv m (g_step e s)"
    proof (cases e)
      case (MessageArrives i msg)
      with False have "i \<noteq> m" by simp
      with Cons.prems(1) show ?thesis
        unfolding MessageArrives by (simp add: g_inv_arrives del: g_step.simps)
    qed (use Cons.prems(1) in \<open>simp_all add: g_inv_step del: g_step.simps\<close>)
    have "m \<in> set (arrived es) \<longrightarrow> arrivals (g_step e s) m = None"
    proof
      assume "m \<in> set (arrived es)"
      with Cons.prems(3) have "arrivals s m = None" by (cases e) simp_all
      then show "arrivals (g_step e s) m = None"
        using False by (rule step_keeps_unarrived)
    qed
    with inv Cons.IH [of "g_step e s"] d show ?thesis by simp
  qed
qed

lemma g_inv_run_quiet:
  "g_inv m s \<Longrightarrow> arrived es = [] \<Longrightarrow> g_inv m (g_run es s)"
  by (rule g_inv_run) simp_all

lemma g_inv_init: "g_inv m (g_init c h)"
  by (simp add: g_inv_def env_inv_init msg_inv_init)

subsection \<open>Every arrival and every sweep comes to its end\<close>

lemma stage_step:
  assumes k: "k < 7" and arr: "arrivals s m = Some a" and st: "stage k (ar_pc a)"
  shows "\<exists>a'. arrivals (g_step (arrival_events m ! k) s) m = Some a' \<and>
            ar_message a' = ar_message a \<and> stage (Suc k) (ar_pc a')"
proof -
  from k consider "k = 0" | "k = 1" | "k = 2" | "k = 3" | "k = 4" | "k = 5" | "k = 6"
    by linarith
  then show ?thesis
  proof cases
    case 1
    with arr st show ?thesis
      by (cases "ar_pc a")
         (auto simp: arrival_events_def on_hasSeenChain_def check_height_def
            return_to_caller_def addMqMessageTaskToQueue_def Let_def set_pc_arrivals)
  next
    case 2
    with arr st show ?thesis
      by (cases "ar_pc a") (auto simp: arrival_events_def set_pc_arrivals split: bool.split)
  next
    case 3
    with arr st show ?thesis
      by (cases "ar_pc a") (auto simp: arrival_events_def set_pc_arrivals split: bool.split)
  next
    case 4
    with arr st show ?thesis
      by (cases "ar_pc a")
         (auto simp: arrival_events_def on_persisted_def return_to_caller_def
            addMqMessageTaskToQueue_def Let_def set_pc_arrivals split: bool.split)
  next
    case 5
    with arr st show ?thesis
      by (cases "ar_pc a")
         (auto simp: arrival_events_def set_pc_arrivals removeMessageFromMQ_def
            split: bool.split)
  next
    case 6
    with arr st show ?thesis
      by (cases "ar_pc a")
         (auto simp: arrival_events_def set_pc_arrivals removeMessageIdToProcessAtBlock_def
            split: bool.split)
  next
    case 7
    with arr st show ?thesis
      by (cases "ar_pc a")
         (auto simp: arrival_events_def return_to_caller_def addMqMessageTaskToQueue_def
            Let_def set_pc_arrivals split: bool.split)
  qed
qed

lemma stage_run:
  assumes "k \<le> 7" "arrivals s m = Some a" "stage k (ar_pc a)"
  shows "\<exists>a'. arrivals (g_run (drop k (arrival_events m)) s) m = Some a' \<and>
            ar_message a' = ar_message a \<and> stage 7 (ar_pc a')"
  using assms
proof (induction "7 - k" arbitrary: k s a)
  case 0
  then have "k = 7" by simp
  with 0 show ?case by (simp add: arrival_events_def)
next
  case (Suc d)
  then have k: "k < 7" by simp
  have "length (arrival_events m) = 7" by (simp add: arrival_events_def)
  with k have "k < length (arrival_events m)" by simp
  then have dr: "drop k (arrival_events m) = arrival_events m ! k # drop (Suc k) (arrival_events m)"
    by (rule Cons_nth_drop_Suc [symmetric])
  from stage_step [OF k Suc.prems(2,3)] obtain a1
    where a1: "arrivals (g_step (arrival_events m ! k) s) m = Some a1"
      "ar_message a1 = ar_message a" "stage (Suc k) (ar_pc a1)"
    by blast
  from Suc.hyps(2) have "d = 7 - Suc k" by simp
  from Suc.hyps(1) [OF this _ a1(1) a1(3)] k a1(2)
  show ?case by (simp add: dr del: g_step.simps)
qed

lemma arrival_events_resolve:
  assumes "arrivals s m = Some a" "ar_pc a \<noteq> Rejected"
  shows "\<exists>a' r. arrivals (g_run (arrival_events m) s) m = Some a' \<and>
            ar_message a' = ar_message a \<and> ar_pc a' = Resolved r"
proof -
  from assms(2) have "stage 0 (ar_pc a)" by (cases "ar_pc a") simp_all
  from stage_run [OF _ assms(1) this] obtain a'
    where a': "arrivals (g_run (arrival_events m) s) m = Some a'"
      "ar_message a' = ar_message a" "stage 7 (ar_pc a')"
    by auto
  from a'(3) obtain r where "ar_pc a' = Resolved r" by (cases "ar_pc a'") simp_all
  with a' show ?thesis by blast
qed

lemma drop_nth_0: "drop_nth 0 xs = tl xs"
  by (simp add: drop_nth_def drop_Suc)

lemma answered_first:
  "awaitingIds (g_step (IdsAnswered 0) s) = tl (awaitingIds s)"
  "arrivals (g_step (IdsAnswered 0) s) = arrivals s"
  "tm_latestBlockHeight (g_step (IdsAnswered 0) s) = tm_latestBlockHeight s"
  by (simp_all add: drop_nth_0)

lemma ids_settled_first:
  "idsRead (g_step (IdsSettled 0) s) = tl (idsRead s)"
  "awaitingIds (g_step (IdsSettled 0) s) = awaitingIds s"
  "arrivals (g_step (IdsSettled 0) s) = arrivals s"
  "tm_latestBlockHeight (g_step (IdsSettled 0) s) = tm_latestBlockHeight s"
  by (simp_all add: drop_nth_0 processMessageInBlocks_resume_def)

lemma item_first:
  "items (g_step (ItemSettled 0) s) = tl (items s)"
  "idsRead (g_step (ItemSettled 0) s) = idsRead s"
  "awaitingIds (g_step (ItemSettled 0) s) = awaitingIds s"
  "arrivals (g_step (ItemSettled 0) s) = arrivals s"
  "tm_latestBlockHeight (g_step (ItemSettled 0) s) = tm_latestBlockHeight s"
  by (simp_all add: drop_nth_0 process_item_def split: option.split)

lemma answer_all:
  "awaitingIds (g_run (replicate n (IdsAnswered 0)) s) = drop n (awaitingIds s)"
  "arrivals (g_run (replicate n (IdsAnswered 0)) s) = arrivals s"
  "tm_latestBlockHeight (g_run (replicate n (IdsAnswered 0)) s) = tm_latestBlockHeight s"
  by (induction n arbitrary: s; simp add: answered_first drop_Suc del: g_step.simps)+

lemma settle_all_ids:
  "idsRead (g_run (replicate n (IdsSettled 0)) s) = drop n (idsRead s)"
  "awaitingIds (g_run (replicate n (IdsSettled 0)) s) = awaitingIds s"
  "arrivals (g_run (replicate n (IdsSettled 0)) s) = arrivals s"
  "tm_latestBlockHeight (g_run (replicate n (IdsSettled 0)) s) = tm_latestBlockHeight s"
  by (induction n arbitrary: s; simp add: ids_settled_first drop_Suc del: g_step.simps)+

lemma settle_all_items:
  "items (g_run (replicate n (ItemSettled 0)) s) = drop n (items s)"
  "idsRead (g_run (replicate n (ItemSettled 0)) s) = idsRead s"
  "awaitingIds (g_run (replicate n (ItemSettled 0)) s) = awaitingIds s"
  "arrivals (g_run (replicate n (ItemSettled 0)) s) = arrivals s"
  "tm_latestBlockHeight (g_run (replicate n (ItemSettled 0)) s) = tm_latestBlockHeight s"
  by (induction n arbitrary: s; simp add: item_first drop_Suc del: g_step.simps)+

lemma finish_sweeps_fields:
  "awaitingIds (finish_sweeps s) = []"
  "idsRead (finish_sweeps s) = []"
  "items (finish_sweeps s) = []"
  "arrivals (finish_sweeps s) = arrivals s"
  "tm_latestBlockHeight (finish_sweeps s) = tm_latestBlockHeight s"
  by (simp_all add: finish_sweeps_def Let_def answer_all settle_all_ids settle_all_items)

lemma arrived_replicate:
  "arrived (replicate n (IdsAnswered k)) = []"
  "arrived (replicate n (IdsSettled k)) = []"
  "arrived (replicate n (ItemSettled k)) = []"
  by (induction n) simp_all

lemma g_inv_finish_sweeps: "g_inv m s \<Longrightarrow> g_inv m (finish_sweeps s)"
  unfolding finish_sweeps_def Let_def
  by (intro g_inv_run_quiet arrived_replicate)

lemma g_inv_settle: "g_inv m s \<Longrightarrow> g_inv m (settle m' h s)"
  unfolding settle_def
  by (intro g_inv_finish_sweeps g_inv_step g_inv_run_quiet) (simp_all add: arrival_events_def)

lemma settle_quiet:
  assumes "arrivals s m = Some a" "ar_pc a \<noteq> Rejected"
  shows "quiet m (settle m h s)" and "h < tm_latestBlockHeight (settle m h s)"
    and "\<exists>a' r. arrivals (settle m h s) m = Some a' \<and> ar_message a' = ar_message a \<and>
           ar_pc a' = Resolved r"
proof -
  from arrival_events_resolve [OF assms] obtain a' r
    where a': "arrivals (g_run (arrival_events m) s) m = Some a'"
      "ar_message a' = ar_message a" "ar_pc a' = Resolved r"
    by blast
  have arr: "arrivals (settle m h s) m = Some a'"
    by (simp add: settle_def finish_sweeps_fields new_block_def a')
  with a' show "\<exists>a' r. arrivals (settle m h s) m = Some a' \<and> ar_message a' = ar_message a \<and>
           ar_pc a' = Resolved r"
    by blast
  from arr a'(3) show "quiet m (settle m h s)"
    by (simp add: quiet_def) (simp add: settle_def finish_sweeps_fields)
  show "h < tm_latestBlockHeight (settle m h s)"
    by (simp add: settle_def finish_sweeps_fields new_block_def)
qed

subsection \<open>Admission exactly once\<close>

lemma occ_pos_ex: "1 \<le> occ P xs \<Longrightarrow> \<exists>x \<in> set xs. P x"
  by (induction xs) (auto split: if_splits)

lemma admitted_facts:
  assumes inv: "g_inv m s"
  shows "admissions m s \<le> 1"
    and "arrivals s m = None \<Longrightarrow> admissions m s = 0"
    and "arrivals s m = Some a \<Longrightarrow> 1 \<le> admissions m s \<Longrightarrow>
         height (ar_message a) < tm_latestBlockHeight s"
    and "arrivals s m = Some a \<Longrightarrow> quiet m s \<Longrightarrow>
         height (ar_message a) < tm_latestBlockHeight s \<Longrightarrow> admissions m s = 1"
proof -
  from inv have env: "env_inv s" and mi: "msg_inv m s" by (simp_all add: g_inv_def)
  from env have late: "snd r < tm_latestBlockHeight s" if "r \<in> set (sweepRanges s)" for r
    using that by (simp add: env_inv_def)
  from env have one: "occ (covers x) (sweepRanges s) \<le> 1" for x
    by (simp add: env_inv_def)
  have none: "admissions m s = 0" if "arrivals s m = None"
    using mi that by (simp add: msg_inv_def pristine_def)
  have some: "admissions m s \<le> 1
      \<and> (1 \<le> admissions m s \<longrightarrow> height (ar_message a) < tm_latestBlockHeight s)
      \<and> (quiet m s \<and> height (ar_message a) < tm_latestBlockHeight s \<longrightarrow> admissions m s = 1)"
    if arr: "arrivals s m = Some a" for a
  proof -
    from mi arr have cm: "common m (ar_message a) s" and p: "phase m (ar_message a) (ar_pc a) s"
      by (simp_all add: msg_inv_def)
    show ?thesis
    proof (cases "ar_pc a")
      case AwaitHasSeenChain
      with p arr show ?thesis by (simp add: pristine_def quiet_def)
    next
      case Rejected
      with p arr show ?thesis by (simp add: pristine_def quiet_def)
    next
      case (AwaitPersist w1 w2)
      with p arr show ?thesis by (simp add: quiet_def)
    next
      case (AwaitRemove r1 r2)
      with p arr show ?thesis by (simp add: quiet_def)
    next
      case (Resolved b)
      show ?thesis
      proof (cases b)
        case True
        with p Resolved show ?thesis by (simp add: admissions_split)
      next
        case False
        with p Resolved have d: "direct_adm m s = 0"
          and w: "height (ar_message a) < tm_latestBlockHeight s \<Longrightarrow>
                  in_sweep m (height (ar_message a)) s = 1"
          by simp_all
        from cm have le: "in_sweep m (height (ar_message a)) s
            \<le> occ (covers (height (ar_message a))) (sweepRanges s)"
          by (simp add: common_def)
        have sw: "sweep_adm m s \<le> in_sweep m (height (ar_message a)) s"
          by (simp add: in_sweep_def)
        from sw le one [of "height (ar_message a)"] have a1: "admissions m s \<le> 1"
          by (simp add: admissions_split d)
        have a2: "height (ar_message a) < tm_latestBlockHeight s" if "1 \<le> admissions m s"
        proof -
          from that sw le have "1 \<le> occ (covers (height (ar_message a))) (sweepRanges s)"
            by (simp add: admissions_split d)
          then have "\<exists>r \<in> set (sweepRanges s). covers (height (ar_message a)) r"
            by (rule occ_pos_ex)
          then obtain r where r: "r \<in> set (sweepRanges s)" "covers (height (ar_message a)) r"
            by blast
          with late [OF r(1)] show ?thesis by (simp add: covers_def)
        qed
        have a3: "admissions m s = 1"
          if "quiet m s" "height (ar_message a) < tm_latestBlockHeight s"
        proof -
          from that(1) have "in_sweep m (height (ar_message a)) s = sweep_adm m s"
            by (simp add: quiet_def in_sweep_def)
          with w [OF that(2)] show ?thesis by (simp add: admissions_split d)
        qed
        from a1 a2 a3 show ?thesis by blast
      qed
    qed
  qed
  show "admissions m s \<le> 1"
    using none some by (cases "arrivals s m") auto
  show "arrivals s m = None \<Longrightarrow> admissions m s = 0" by (rule none)
  show "arrivals s m = Some a \<Longrightarrow> 1 \<le> admissions m s \<Longrightarrow>
         height (ar_message a) < tm_latestBlockHeight s"
    using some by blast
  show "arrivals s m = Some a \<Longrightarrow> quiet m s \<Longrightarrow>
         height (ar_message a) < tm_latestBlockHeight s \<Longrightarrow> admissions m s = 1"
    using some by blast
qed

lemma locked_facts:
  assumes inv: "g_inv m s" and arr: "arrivals s m = Some a"
  shows "ar_pc a = Rejected \<Longrightarrow> admissions m s = 0"
    and "ar_pc a = AwaitPersist w1 w2 \<or> ar_pc a = AwaitRemove w1 w2 \<Longrightarrow>
         m \<in> messageProcessLock s \<and> admissions m s = 0"
proof -
  from inv arr have p: "phase m (ar_message a) (ar_pc a) s"
    by (simp add: g_inv_def msg_inv_def)
  from p show "ar_pc a = Rejected \<Longrightarrow> admissions m s = 0"
    by (simp add: pristine_def)
  from p show "ar_pc a = AwaitPersist w1 w2 \<or> ar_pc a = AwaitRemove w1 w2 \<Longrightarrow>
         m \<in> messageProcessLock s \<and> admissions m s = 0"
    by auto
qed

text \<open>
  Claim C2, amended. Along every run of the block gate from its initial state in which no
  message id arrives twice: a message is admitted to the task queue at most once,
  counting the admissions of the arrival path (handler \<open>releaseLock\<close>) and of the sweep
  \<open>processMessageInBlocks\<close> (handler \<open>releaseLockAndCleanUp\<close>) together; it is not admitted
  before it arrives, nor when its chain is not recognized, nor while its arrival holds
  the lock to persist it and look at the height again; whenever it has been admitted, the
  observed height is greater than its height; when the observed height is greater than
  its height, its arrival has returned and no sweep is in flight, it has been admitted
  exactly once. And every message of a recognized chain gets there: when all that was
  begun for it and for the sweeps has come to its end and a block above its height has
  been seen, it has been admitted exactly once. The caller is taken to add the task when
  the arrival returns \<open>true\<close>, and a new block to start the sweep of the heights from the
  old observed height to the one below the new.
\<close>

theorem message_arriving_once_is_admitted_once:
  assumes once: "distinct (arrived es)"
  shows "let s = g_run es (g_init c h0)
   in admissions m s \<le> 1
    \<and> admissions m s = direct_adm m s + sweep_adm m s
    \<and> (arrivals s m = None \<longrightarrow> admissions m s = 0)
    \<and> (\<forall>a. arrivals s m = Some a \<and> ar_pc a = Rejected \<longrightarrow> admissions m s = 0)
    \<and> (\<forall>a w1 w2. arrivals s m = Some a
           \<and> (ar_pc a = AwaitPersist w1 w2 \<or> ar_pc a = AwaitRemove w1 w2) \<longrightarrow>
             m \<in> messageProcessLock s \<and> admissions m s = 0)
    \<and> (\<forall>a. arrivals s m = Some a \<and> 1 \<le> admissions m s \<longrightarrow>
             height (ar_message a) < tm_latestBlockHeight s)
    \<and> (\<forall>a. arrivals s m = Some a \<and> quiet m s
             \<and> height (ar_message a) < tm_latestBlockHeight s \<longrightarrow> admissions m s = 1)
    \<and> (\<forall>a. arrivals s m = Some a \<and> ar_pc a \<noteq> Rejected \<longrightarrow>
             (let s' = settle m (height (ar_message a)) s
              in quiet m s' \<and> height (ar_message a) < tm_latestBlockHeight s'
               \<and> admissions m s' = 1))"
proof -
  define s where "s = g_run es (g_init c h0)"
  have inv: "g_inv m s"
    unfolding s_def by (rule g_inv_run [OF g_inv_init once]) (simp add: g_init_def)
  have fin: "quiet m (settle m (height (ar_message a)) s)
      \<and> height (ar_message a) < tm_latestBlockHeight (settle m (height (ar_message a)) s)
      \<and> admissions m (settle m (height (ar_message a)) s) = 1"
    if "arrivals s m = Some a \<and> ar_pc a \<noteq> Rejected" for a
  proof -
    from that have arr: "arrivals s m = Some a" and pc: "ar_pc a \<noteq> Rejected" by simp_all
    let ?s' = "settle m (height (ar_message a)) s"
    note q = settle_quiet [OF arr pc, of "height (ar_message a)"]
    from q(3) obtain a' where a': "arrivals ?s' m = Some a'" "ar_message a' = ar_message a"
      by blast
    have "g_inv m ?s'" by (rule g_inv_settle [OF inv])
    from admitted_facts(4) [OF this a'(1) q(1)] q(2) a'(2)
    have "admissions m ?s' = 1" by simp
    with q(1,2) show ?thesis by simp
  qed
  from admitted_facts [OF inv] locked_facts [OF inv] admissions_split [of m s] fin
  show ?thesis
    unfolding Let_def s_def [symmetric] by (intro conjI allI impI) blast+
qed

lemma deferral_run_eval:
  "arrivals (g_run deferral_run (g_init ''chain'' 100)) ''m1''
     = Some \<lparr> ar_message = late_msg_example, ar_pc = Resolved False \<rparr>"
  "queueCalls (g_run deferral_run (g_init ''chain'' 100)) = []"
  "queueCalls (settle ''m1'' 105 (g_run deferral_run (g_init ''chain'' 100))) =
     [\<lparr> qc_messageId = ''m1'', qc_requestId = ''req-1'', qc_handler = ReleaseLockAndCleanUp \<rparr>]"
  by code_simp+

lemma sweep_run_eval:
  "arrivals (g_run sweep_run (g_init ''chain'' 100)) ''m1''
     = Some \<lparr> ar_message = late_msg_example, ar_pc = Resolved False \<rparr>"
  "tm_latestBlockHeight (g_run sweep_run (g_init ''chain'' 100)) = 106"
  "quiet ''m1'' (g_run sweep_run (g_init ''chain'' 100))"
  "queueCalls (g_run sweep_run (g_init ''chain'' 100)) =
     [\<lparr> qc_messageId = ''m1'', qc_requestId = ''req-1'', qc_handler = ReleaseLockAndCleanUp \<rparr>]"
  by code_simp+

lemma race_run_eval:
  "arrivals (g_run race_run (g_init ''chain'' 100)) ''m1''
     = Some \<lparr> ar_message = late_msg_example, ar_pc = Resolved True \<rparr>"
  "tm_latestBlockHeight (g_run race_run (g_init ''chain'' 100)) = 106"
  "quiet ''m1'' (g_run race_run (g_init ''chain'' 100))"
  "queueCalls (g_run race_run (g_init ''chain'' 100)) =
     [\<lparr> qc_messageId = ''m1'', qc_requestId = ''req-1'', qc_handler = ReleaseLock \<rparr>]"
  by code_simp+

theorem message_arriving_once_is_admitted_once_witness:
  "distinct (arrived sweep_run) \<and> distinct (arrived race_run) \<and> distinct (arrived deferral_run)
   \<and> arrivals (g_run sweep_run (g_init ''chain'' 100)) ''m1''
     = Some \<lparr> ar_message = late_msg_example, ar_pc = Resolved False \<rparr>
   \<and> quiet ''m1'' (g_run sweep_run (g_init ''chain'' 100))
   \<and> height late_msg_example < tm_latestBlockHeight (g_run sweep_run (g_init ''chain'' 100))
   \<and> admissions ''m1'' (g_run sweep_run (g_init ''chain'' 100)) = 1
   \<and> sweep_adm ''m1'' (g_run sweep_run (g_init ''chain'' 100)) = 1
   \<and> arrivals (g_run race_run (g_init ''chain'' 100)) ''m1''
     = Some \<lparr> ar_message = late_msg_example, ar_pc = Resolved True \<rparr>
   \<and> quiet ''m1'' (g_run race_run (g_init ''chain'' 100))
   \<and> height late_msg_example < tm_latestBlockHeight (g_run race_run (g_init ''chain'' 100))
   \<and> admissions ''m1'' (g_run race_run (g_init ''chain'' 100)) = 1
   \<and> direct_adm ''m1'' (g_run race_run (g_init ''chain'' 100)) = 1
   \<and> arrivals (g_run deferral_run (g_init ''chain'' 100)) ''m1''
     = Some \<lparr> ar_message = late_msg_example, ar_pc = Resolved False \<rparr>
   \<and> admissions ''m1'' (g_run deferral_run (g_init ''chain'' 100)) = 0
   \<and> admissions ''m1'' (settle ''m1'' 105 (g_run deferral_run (g_init ''chain'' 100))) = 1
   \<and> arrivals (g_run [] (g_init ''chain'' 100)) ''m1'' = None
   \<and> admissions ''m1'' (g_run [] (g_init ''chain'' 100)) = 0"
proof -
  note a = sweep_run_eval(1) and b = race_run_eval(1) and c = deferral_run_eval(1)
  have o: "distinct (arrived sweep_run)" "distinct (arrived race_run)"
    "distinct (arrived deferral_run)" "distinct (arrived [])"
    by (simp_all add: sweep_run_def race_run_def deferral_run_def)
  have h: "height (ar_message \<lparr> ar_message = late_msg_example, ar_pc = pc \<rparr>) < 106" for pc
    by (simp add: late_msg_example_def)
  have n: "arrivals (g_run [] (g_init ''chain'' 100)) ''m1'' = None"
    by (simp add: g_init_def)
  have d: "sweep_adm ''m1'' (g_run sweep_run (g_init ''chain'' 100)) = 1"
    "direct_adm ''m1'' (g_run race_run (g_init ''chain'' 100)) = 1"
    "admissions ''m1'' (g_run deferral_run (g_init ''chain'' 100)) = 0"
    by (simp_all add: sweep_adm_def direct_adm_def admissions_def sweep_run_eval race_run_eval
          deferral_run_eval occ_def)
  from message_arriving_once_is_admitted_once [OF o(1), of "''chain''" 100 "''m1''"]
    a sweep_run_eval(2,3) h
  have 1: "admissions ''m1'' (g_run sweep_run (g_init ''chain'' 100)) = 1"
    unfolding Let_def by auto
  from message_arriving_once_is_admitted_once [OF o(2), of "''chain''" 100 "''m1''"]
    b race_run_eval(2,3) h
  have 2: "admissions ''m1'' (g_run race_run (g_init ''chain'' 100)) = 1"
    unfolding Let_def by auto
  from message_arriving_once_is_admitted_once [OF o(3), of "''chain''" 100 "''m1''"]
  have "\<forall>a. arrivals (g_run deferral_run (g_init ''chain'' 100)) ''m1'' = Some a \<and>
      ar_pc a \<noteq> Rejected \<longrightarrow>
      admissions ''m1'' (settle ''m1'' (height (ar_message a))
        (g_run deferral_run (g_init ''chain'' 100))) = 1"
    unfolding Let_def by blast
  with c have 3: "admissions ''m1'' (settle ''m1'' 105 (g_run deferral_run (g_init ''chain'' 100))) = 1"
    by (auto simp: late_msg_example_def)
  from message_arriving_once_is_admitted_once [OF o(4), of "''chain''" 100 "''m1''"] n
  have 4: "admissions ''m1'' (g_run [] (g_init ''chain'' 100)) = 0"
    unfolding Let_def by blast
  from 1 2 3 4 n d o h [of "Resolved True"] show ?thesis
    by (simp only: a b c sweep_run_eval(2,3) race_run_eval(2,3) simp_thms) simp
qed

lemma covered_example_eval:
  "arrivals covered_example ''m1''
     = Some \<lparr> ar_message = late_msg_example, ar_pc = Resolved False \<rparr>"
  "quiet ''m1'' covered_example"
  "tm_latestBlockHeight covered_example = 105"
  "queueCalls covered_example = []"
  "messageFromMQ covered_example ''m1'' = Some late_msg_example"
  by code_simp+

lemma redelivered_example_eval:
  "queueCalls redelivered_example =
     [\<lparr> qc_messageId = ''m1'', qc_requestId = ''req-1'', qc_handler = ReleaseLock \<rparr>,
      \<lparr> qc_messageId = ''m1'', qc_requestId = ''req-1'', qc_handler = ReleaseLockAndCleanUp \<rparr>]"
  "quiet ''m1'' redelivered_example"
  "tm_latestBlockHeight redelivered_example = 106"
  by code_simp+

text \<open>
  Claim C2 as stated fails twice over for a message of height 105 that arrives at the
  observed height 100 and is deferred. When the observed height has come to 105, which
  covers the height of the message, and nothing is in flight any more, the message has
  not been admitted; it is still persisted. And when its id arrives a second time after
  block 106, the arrival path admits it without taking the lock and the sweep admits it
  as well: two admissions.
\<close>

theorem deferred_message_not_admitted_exactly_once:
  "tm_latestBlockHeight (g_init ''chain'' 100) < height late_msg_example
   \<and> arrivals covered_example ''m1''
       = Some \<lparr> ar_message = late_msg_example, ar_pc = Resolved False \<rparr>
   \<and> quiet ''m1'' covered_example
   \<and> height late_msg_example \<le> tm_latestBlockHeight covered_example
   \<and> admissions ''m1'' covered_example = 0
   \<and> messageFromMQ covered_example ''m1'' = Some late_msg_example
   \<and> quiet ''m1'' redelivered_example
   \<and> height late_msg_example < tm_latestBlockHeight redelivered_example
   \<and> direct_adm ''m1'' redelivered_example = 1
   \<and> sweep_adm ''m1'' redelivered_example = 1
   \<and> admissions ''m1'' redelivered_example = 2"
  by (simp add: covered_example_eval redelivered_example_eval admissions_def direct_adm_def
        sweep_adm_def occ_def late_msg_example_def g_init_def)

end
